theory Spec2Isabelle
  imports Complex_Main "HOL-Library.Word" "HOL-Library.Sublist" "HOL-Library.Multiset"
begin

unbundle bit_operations_syntax

section \<open>wtop: the process monitor of \<^verbatim>\<open>wtop.cpp\<close>\<close>

text \<open>
  A shallow embedding of \<^verbatim>\<open>src/wtop.cpp\<close>. Everything the program obtains from
  Windows or from the C/C++ runtime is an input of the model:
  \<^item> the results of \<^verbatim>\<open>GetSystemTimes\<close>, \<^verbatim>\<open>CreateToolhelp32Snapshot\<close>,
    \<^verbatim>\<open>OpenProcess\<close>, \<^verbatim>\<open>GetProcessMemoryInfo\<close>, \<^verbatim>\<open>GetProcessTimes\<close>, \<^verbatim>\<open>_kbhit\<close> and
    \<^verbatim>\<open>_getch\<close> are given per call;
  \<^item> \<^verbatim>\<open>std::sort\<close>, \<^verbatim>\<open>towlower\<close> and \<^verbatim>\<open>iswprint\<close> are parameters.
  The global maps, the function-local statics and the locals of \<^verbatim>\<open>main\<close> that live
  across loop iterations form one state record that is passed explicitly. What the
  program only writes to the console (\<^verbatim>\<open>ClearScreen\<close>, \<^verbatim>\<open>PrintHelp\<close>, the header and
  the table) and \<^verbatim>\<open>GetMemoryUsageMB\<close>, whose result is only printed, are left out, as is
  the clock of \<^verbatim>\<open>clock.cpp\<close>.
\<close>

subsection \<open>Machine types\<close>

text \<open>
  \<^verbatim>\<open>SIZE_T\<close> has the width of a pointer and is taken at 64 bits; \<^verbatim>\<open>wchar_t\<close> has 16
  bits on Windows.
\<close>

type_synonym DWORD = "32 word"
type_synonym ULONGLONG = "64 word"
type_synonym SIZE_T = "64 word"
type_synonym wchar = "16 word"
type_synonym wstring = "wchar list"

record FILETIME =
  dwLowDateTime :: DWORD
  dwHighDateTime :: DWORD

text \<open>
  \<^verbatim>\<open>FileTimeToULL\<close> (lines 55-60): the two halves are stored into a
  \<^verbatim>\<open>ULARGE_INTEGER\<close> and read back as its \<^verbatim>\<open>QuadPart\<close>.
\<close>

definition FileTimeToULL :: "FILETIME \<Rightarrow> ULONGLONG" where
  "FileTimeToULL ft = push_bit 32 (ucast (dwHighDateTime ft)) OR ucast (dwLowDateTime ft)"

text \<open>The \<^verbatim>\<open>FILETIME\<close> whose 64-bit reading is a given number below \<open>2 ^ 32\<close>.\<close>

definition ft_low :: "DWORD \<Rightarrow> FILETIME" where
  "ft_low n = \<lparr>dwLowDateTime = n, dwHighDateTime = 0\<rparr>"

subsection \<open>Floating-point values\<close>

text \<open>
  The program computes its percentages in \<^verbatim>\<open>float\<close> and \<^verbatim>\<open>double\<close>. Every
  conversion and every arithmetic operation rounds its exact result to the nearest value
  with \<open>p\<close> significant bits, ties to the even one: \<open>p\<close> is 24 for \<^verbatim>\<open>float\<close> and 53
  for \<^verbatim>\<open>double\<close>, each operation being carried out in the type of its operands. The
  exponent range is not modelled: the magnitudes that occur lie between \<open>100 / 2 ^ 64\<close> and
  \<open>2 ^ 71\<close>, inside the normal range of both types. A finite value is a real number; a
  division by zero gives, as in IEEE arithmetic, an infinity or a NaN.
\<close>

datatype fp = Fin real | PInf | NInf | NaN

text \<open>The number of binary digits of a natural number.\<close>

fun bit_length :: "nat \<Rightarrow> nat" where
  "bit_length n = (if n = 0 then 0 else Suc (bit_length (n div 2)))"

declare bit_length.simps [simp del]

text \<open>
  A natural number rounded to \<open>p\<close> significant bits: the \<open>k\<close> digits beyond the first
  \<open>p\<close> are dropped, and the rest goes up by one when the dropped part is above one half
  of \<open>2 ^ k\<close>, or is that half and the rest is odd.
\<close>

definition round_nat :: "nat \<Rightarrow> nat \<Rightarrow> nat" where
  "round_nat p n =
     (let k = bit_length n - p
      in if k = 0 then n
         else (let q = n div 2 ^ k; r = n mod 2 ^ k; h = 2 ^ (k - 1)
               in (if h < r \<or> (r = h \<and> odd q) then q + 1 else q) * 2 ^ k))"

text \<open>
  The quotient \<open>a / b\<close> of two natural numbers rounded to \<open>p\<close> significant bits: with
  \<open>e\<close> the exponent of the quotient, \<open>2 ^ e \<le> a / b < 2 ^ (e + 1)\<close>, the quotient is
  scaled by \<open>2 ^ s\<close>, \<open>s = p - 1 - e\<close>, rounded to the nearest integer, ties to even, and
  scaled back.
\<close>

definition round_div :: "nat \<Rightarrow> nat \<Rightarrow> nat \<Rightarrow> real" where
  "round_div p a b =
     (if a = 0 then 0
      else (let d = int (bit_length a) - int (bit_length b);
                e = (if b * 2 ^ nat d \<le> a * 2 ^ nat (- d) then d else d - 1);
                s = int p - 1 - e;
                num = a * 2 ^ nat s;
                den = b * 2 ^ nat (- s);
                q = num div den;
                r = num mod den;
                n = (if den < 2 * r \<or> (2 * r = den \<and> odd q) then q + 1 else q)
            in real n * 2 ^ nat (- s) / 2 ^ nat s))"

text \<open>
  The three operations of the program. A value converted from an unsigned integer, and
  its product with 100, are non-negative integers and are kept as natural numbers.
  \<open>fp_of_ull\<close> is the conversion of an unsigned 64-bit integer, \<open>fp_mul\<close> the product and
  \<open>fp_div\<close> the quotient of two such values.
\<close>

definition fp_of_ull :: "nat \<Rightarrow> ULONGLONG \<Rightarrow> nat" where
  "fp_of_ull p w = round_nat p (unat w)"

definition fp_mul :: "nat \<Rightarrow> nat \<Rightarrow> nat \<Rightarrow> nat" where
  "fp_mul p x y = round_nat p (x * y)"

definition fp_div :: "nat \<Rightarrow> nat \<Rightarrow> nat \<Rightarrow> fp" where
  "fp_div p x y =
     (if y \<noteq> 0 then Fin (round_div p x y)
      else if x = 0 then NaN
      else PInf)"

text \<open>The comparison \<^verbatim>\<open>a > b\<close>: false as soon as one side is a NaN.\<close>

fun fp_gt :: "fp \<Rightarrow> fp \<Rightarrow> bool" where
  "fp_gt (Fin a) (Fin b) = (b < a)"
| "fp_gt NaN _ = False"
| "fp_gt _ NaN = False"
| "fp_gt PInf PInf = False"
| "fp_gt PInf _ = True"
| "fp_gt _ PInf = False"
| "fp_gt NInf _ = False"
| "fp_gt _ NInf = True"

fun is_Fin :: "fp \<Rightarrow> bool" where
  "is_Fin (Fin _) = True"
| "is_Fin _ = False"

subsection \<open>System-wide CPU percentage\<close>

text \<open>
  \<^verbatim>\<open>GetSystemCPU\<close> (lines 68-83). Its three \<^verbatim>\<open>static FILETIME\<close> variables are
  the record \<open>sys_prev\<close>; static storage is zero-initialised. The argument is what
  \<^verbatim>\<open>GetSystemTimes\<close> delivers: \<open>None\<close> when the call fails, otherwise idle, kernel
  and user time. All integer arithmetic is unsigned 64-bit and wraps; the percentage is
  computed in \<^verbatim>\<open>float\<close>.
\<close>

record sys_prev =
  prevIdle :: FILETIME
  prevKernel :: FILETIME
  prevUser :: FILETIME

definition sys_prev0 :: sys_prev where
  "sys_prev0 = \<lparr>prevIdle = ft_low 0, prevKernel = ft_low 0, prevUser = ft_low 0\<rparr>"

definition GetSystemCPU :: "(FILETIME \<times> FILETIME \<times> FILETIME) option \<Rightarrow> sys_prev \<Rightarrow> fp \<times> sys_prev" where
  "GetSystemCPU st prev =
     (case st of
        None \<Rightarrow> (Fin (- 1), prev)
      | Some (idle, kern, usr) \<Rightarrow>
          (let sys = (FileTimeToULL kern + FileTimeToULL usr) -
                     (FileTimeToULL (prevKernel prev) + FileTimeToULL (prevUser prev));
               idleDiff = FileTimeToULL idle - FileTimeToULL (prevIdle prev);
               prev' = \<lparr>prevIdle = idle, prevKernel = kern, prevUser = usr\<rparr>
           in if sys = 0 then (Fin 0, prev')
              else (fp_div 24 (fp_mul 24 (fp_of_ull 24 (sys - idleDiff)) 100) (fp_of_ull 24 sys), prev')))"

subsection \<open>The process list\<close>

record ProcessInfo =
  pid :: DWORD
  name :: wstring
  memory :: SIZE_T
  cpu :: fp

text \<open>
  The two global maps \<^verbatim>\<open>lastProcTime\<close> and \<^verbatim>\<open>lastSysTime\<close> (lines 52-53).
  Reading \<^verbatim>\<open>m[k]\<close> of a \<^verbatim>\<open>std::map\<close> at an absent key inserts and yields a
  value-initialised entry, that is 0; the program overwrites both entries right after
  reading them, so the read is modelled by \<open>map_index\<close> and the insertion by the
  later update.
\<close>

record globals =
  lastProcTime :: "DWORD \<rightharpoonup> ULONGLONG"
  lastSysTime :: "DWORD \<rightharpoonup> ULONGLONG"

definition globals0 :: globals where
  "globals0 = \<lparr>lastProcTime = Map.empty, lastSysTime = Map.empty\<rparr>"

definition map_index :: "('k \<rightharpoonup> ULONGLONG) \<Rightarrow> 'k \<Rightarrow> ULONGLONG" where
  "map_index m k = (case m k of None \<Rightarrow> 0 | Some v \<Rightarrow> v)"

text \<open>
  What Windows answers for one entry of the process table: the entry itself
  (\<^verbatim>\<open>PROCESSENTRY32W\<close>), and the outcome of \<^verbatim>\<open>OpenProcess\<close>: no handle, or a
  handle together with the outcome of \<^verbatim>\<open>GetProcessMemoryInfo\<close> (the working set size
  when it succeeds) and of \<^verbatim>\<open>GetProcessTimes\<close> (kernel and user time when it succeeds).
\<close>

datatype proc_query = NoHandle | Handle "SIZE_T option" "(FILETIME \<times> FILETIME) option"

record proc_entry =
  th32ProcessID :: DWORD
  szExeFile :: wstring
  query :: proc_query

text \<open>
  What Windows answers during one call of \<^verbatim>\<open>GetProcesses\<close>: \<open>toolhelp\<close> is
  \<open>None\<close> when \<^verbatim>\<open>CreateToolhelp32Snapshot\<close> returns \<^verbatim>\<open>INVALID_HANDLE_VALUE\<close>, and
  otherwise the entries that \<^verbatim>\<open>Process32FirstW\<close> and \<^verbatim>\<open>Process32NextW\<close> deliver, in
  order (none when \<^verbatim>\<open>Process32FirstW\<close> fails). \<open>sysKernel\<close> and \<open>sysUser\<close> are the
  contents of the two variables after \<^verbatim>\<open>GetSystemTimes\<close> (line 100), whose return
  value the program does not test.
\<close>

record snapshot_obs =
  toolhelp :: "proc_entry list option"
  sysKernel :: FILETIME
  sysUser :: FILETIME

text \<open>
  The body of the enumeration loop for one entry (lines 106-131); the percentage is
  computed in \<^verbatim>\<open>double\<close>.
\<close>

definition process_one :: "ULONGLONG \<Rightarrow> proc_entry \<Rightarrow> globals \<Rightarrow> ProcessInfo \<times> globals" where
  "process_one nowSys pe g =
     (case query pe of
        NoHandle \<Rightarrow>
          (\<lparr>pid = th32ProcessID pe, name = szExeFile pe, memory = 0, cpu = Fin 0\<rparr>, g)
      | Handle pmc tms \<Rightarrow>
          (let mem = (case pmc of None \<Rightarrow> 0 | Some ws \<Rightarrow> ws)
           in case tms of
                None \<Rightarrow>
                  (\<lparr>pid = th32ProcessID pe, name = szExeFile pe, memory = mem, cpu = Fin 0\<rparr>, g)
              | Some (kern, usr) \<Rightarrow>
                  (let nowProc = FileTimeToULL kern + FileTimeToULL usr;
                       lastP = map_index (lastProcTime g) (th32ProcessID pe);
                       lastS = map_index (lastSysTime g) (th32ProcessID pe);
                       c = (if 0 < lastS \<and> lastS < nowSys
                            then fp_div 53 (fp_mul 53 (fp_of_ull 53 (nowProc - lastP)) 100)
                                   (fp_of_ull 53 (nowSys - lastS))
                            else Fin 0)
                   in (\<lparr>pid = th32ProcessID pe, name = szExeFile pe, memory = mem, cpu = c\<rparr>,
                       \<lparr>lastProcTime = (lastProcTime g)(th32ProcessID pe \<mapsto> nowProc),
                        lastSysTime = (lastSysTime g)(th32ProcessID pe \<mapsto> nowSys)\<rparr>))))"

text \<open>The \<^verbatim>\<open>do ... while\<close> loop over the entries (lines 104-133).\<close>

fun enumerate_procs :: "ULONGLONG \<Rightarrow> proc_entry list \<Rightarrow> ProcessInfo list \<Rightarrow> globals \<Rightarrow> ProcessInfo list \<times> globals" where
  "enumerate_procs nowSys [] list g = (list, g)"
| "enumerate_procs nowSys (pe # pes) list g =
     (case process_one nowSys pe g of
        (p, g') \<Rightarrow> enumerate_procs nowSys pes (list @ [p]) g')"

text \<open>The comparison handed to \<^verbatim>\<open>std::sort\<close> (lines 137-139).\<close>

definition sort_cmp :: "bool \<Rightarrow> ProcessInfo \<Rightarrow> ProcessInfo \<Rightarrow> bool" where
  "sort_cmp byCpu a b = (if byCpu then fp_gt (cpu a) (cpu b) else memory b < memory a)"

text \<open>
  \<^verbatim>\<open>GetProcesses\<close> (lines 94-140). The vector passed by reference is an argument and a
  result. \<^verbatim>\<open>std::sort\<close> is the parameter \<open>srt\<close>: the C++ standard fixes only that
  its result is a permutation of its input that is ordered by the comparison.
\<close>

definition GetProcesses ::
  "((ProcessInfo \<Rightarrow> ProcessInfo \<Rightarrow> bool) \<Rightarrow> ProcessInfo list \<Rightarrow> ProcessInfo list) \<Rightarrow>
   snapshot_obs \<Rightarrow> ProcessInfo list \<Rightarrow> bool \<Rightarrow> globals \<Rightarrow> ProcessInfo list \<times> globals" where
  "GetProcesses srt obs list byCpu g =
     (let list0 = [] :: ProcessInfo list
      in case toolhelp obs of
           None \<Rightarrow> (list0, g)
         | Some pes \<Rightarrow>
             (let nowSys = FileTimeToULL (sysKernel obs) + FileTimeToULL (sysUser obs)
              in case enumerate_procs nowSys pes list0 g of
                   (list1, g') \<Rightarrow> (srt (sort_cmp byCpu) list1, g')))"

text \<open>
  The contract of \<^verbatim>\<open>std::sort\<close>. The comparison has to be a strict weak ordering
  of the elements: irreflexive, transitive, and with a transitive incomparability. Then
  the result is a permutation of the input in which no element is ordered by the
  comparison before an element that precedes it. Nothing is fixed about the order of
  elements that the comparison does not separate.
\<close>

definition strict_weak_on :: "'a set \<Rightarrow> ('a \<Rightarrow> 'a \<Rightarrow> bool) \<Rightarrow> bool" where
  "strict_weak_on A c \<longleftrightarrow>
     (\<forall>a\<in>A. \<not> c a a) \<and>
     (\<forall>a\<in>A. \<forall>b\<in>A. \<forall>d\<in>A. c a b \<and> c b d \<longrightarrow> c a d) \<and>
     (\<forall>a\<in>A. \<forall>b\<in>A. \<forall>d\<in>A.
        \<not> c a b \<and> \<not> c b a \<and> \<not> c b d \<and> \<not> c d b \<longrightarrow> \<not> c a d \<and> \<not> c d a)"

definition sort_contract :: "(('a \<Rightarrow> 'a \<Rightarrow> bool) \<Rightarrow> 'a list \<Rightarrow> 'a list) \<Rightarrow> bool" where
  "sort_contract srt \<longleftrightarrow>
     (\<forall>c xs. strict_weak_on (set xs) c \<longrightarrow>
        mset (srt c xs) = mset xs \<and> sorted_wrt (\<lambda>a b. \<not> c b a) (srt c xs))"

text \<open>
  One function that meets the contract, used to evaluate the model on concrete inputs:
  insertion sort, which puts an element before the first one the comparison does not
  order before it.
\<close>

fun insert_by :: "('a \<Rightarrow> 'a \<Rightarrow> bool) \<Rightarrow> 'a \<Rightarrow> 'a list \<Rightarrow> 'a list" where
  "insert_by c x [] = [x]"
| "insert_by c x (y # ys) = (if c y x then y # insert_by c x ys else x # y # ys)"

fun insertion_sort :: "('a \<Rightarrow> 'a \<Rightarrow> bool) \<Rightarrow> 'a list \<Rightarrow> 'a list" where
  "insertion_sort c [] = []"
| "insertion_sort c (x # xs) = insert_by c x (insertion_sort c xs)"


subsection \<open>The filter\<close>

text \<open>
  \<^verbatim>\<open>std::wstring::find\<close>: the first position at which the argument occurs, \<open>None\<close>
  for \<^verbatim>\<open>npos\<close>.
\<close>

fun wfind :: "'a list \<Rightarrow> 'a list \<Rightarrow> nat option" where
  "wfind [] needle = (if needle = [] then Some 0 else None)"
| "wfind (h # t) needle =
     (if prefix needle (h # t) then Some 0 else map_option Suc (wfind t needle))"

text \<open>\<^verbatim>\<open>MatchesFilter\<close> (lines 142-148); \<open>lw\<close> is \<^verbatim>\<open>towlower\<close>.\<close>

definition MatchesFilter :: "(wchar \<Rightarrow> wchar) \<Rightarrow> wstring \<Rightarrow> wstring \<Rightarrow> bool" where
  "MatchesFilter lw nm flt =
     (if flt = [] then True
      else (let lowerName = map lw nm; lowerFilter = map lw flt
            in wfind lowerName lowerFilter \<noteq> None))"

text \<open>The filter loop of \<^verbatim>\<open>main\<close> (lines 225-228).\<close>

definition apply_filter :: "(wchar \<Rightarrow> wchar) \<Rightarrow> wstring \<Rightarrow> ProcessInfo list \<Rightarrow> ProcessInfo list" where
  "apply_filter lw flt ps = filter (\<lambda>p. MatchesFilter lw (name p) flt) ps"

text \<open>
  The specification's notion, in its own words: the name contains the filter text as a
  substring up to case, two characters being equal up to case when \<^verbatim>\<open>towlower\<close> maps
  them to the same character.
\<close>

definition contains_ci :: "(wchar \<Rightarrow> wchar) \<Rightarrow> wstring \<Rightarrow> wstring \<Rightarrow> bool" where
  "contains_ci lw nm flt \<longleftrightarrow>
     (\<exists>before mid after. nm = before @ mid @ after \<and> list_all2 (\<lambda>a b. lw a = lw b) mid flt)"

text \<open>A \<^verbatim>\<open>towlower\<close> for evaluation: the letters A to Z are mapped to a to z.\<close>

definition ascii_lower :: "wchar \<Rightarrow> wchar" where
  "ascii_lower c = (if 65 \<le> c \<and> c \<le> 90 then c + 32 else c)"

text \<open>An \<^verbatim>\<open>iswprint\<close> for evaluation: the printable ASCII characters.\<close>

definition ascii_print :: "int \<Rightarrow> bool" where
  "ascii_print ch \<longleftrightarrow> 32 \<le> ch \<and> ch \<le> 126"

subsection \<open>The main loop\<close>

text \<open>
  The variables that live across iterations of the loop in \<^verbatim>\<open>main\<close> (lines 171-177),
  together with the globals and the statics of \<^verbatim>\<open>GetSystemCPU\<close>. \<open>scroll\<close> is a C
  \<^verbatim>\<open>int\<close>; it only moves by one between 0 and the size of a vector, so it is an
  unbounded integer here.
\<close>

record wtop_state =
  glob :: globals
  sysPrev :: sys_prev
  sortByCpu :: bool
  showHelp :: bool
  scroll :: int
  searchMode :: bool
  searchFilter :: wstring
  allProcesses :: "ProcessInfo list"
  filtered :: "ProcessInfo list"

definition initial_state :: wtop_state where
  "initial_state =
     \<lparr>glob = globals0, sysPrev = sys_prev0, sortByCpu = True, showHelp = False, scroll = 0,
      searchMode = False, searchFilter = [], allProcesses = [], filtered = []\<rparr>"

text \<open>
  The keyboard in one iteration: \<open>NoKey\<close> when \<^verbatim>\<open>_kbhit()\<close> is false; \<open>Key ch ch2\<close>
  when it is true, the first \<^verbatim>\<open>_getch()\<close> returns \<open>ch\<close> and a second \<^verbatim>\<open>_getch()\<close>,
  if the program makes one, returns \<open>ch2\<close>.
\<close>

datatype key_event = NoKey | Key int int

text \<open>The keyboard block of the loop (lines 180-212); \<open>ip\<close> is \<^verbatim>\<open>iswprint\<close>.\<close>

definition handle_key :: "(int \<Rightarrow> bool) \<Rightarrow> key_event \<Rightarrow> wtop_state \<Rightarrow> wtop_state" where
  "handle_key ip ev s =
     (case ev of
        NoKey \<Rightarrow> s
      | Key ch ch2 \<Rightarrow>
          if searchMode s then
            (if ch = 27 then s\<lparr>searchMode := False, searchFilter := []\<rparr>
             else if ch = 13 then s\<lparr>searchMode := False\<rparr>
             else if ch = 8 then
               (if searchFilter s \<noteq> [] then s\<lparr>searchFilter := butlast (searchFilter s)\<rparr> else s)
             else if ip ch then s\<lparr>searchFilter := searchFilter s @ [word_of_int ch]\<rparr>
             else s)
          else if ch = 0 \<or> ch = 224 then
            (if \<not> showHelp s then
               (let s1 = (if ch2 = 72 \<and> 0 < scroll s then s\<lparr>scroll := scroll s - 1\<rparr> else s)
                in if ch2 = 80 \<and> scroll s1 < int (length (filtered s1)) - 15
                   then s1\<lparr>scroll := scroll s1 + 1\<rparr> else s1)
             else s)
          else if ch = 9 then s\<lparr>sortByCpu := \<not> sortByCpu s, scroll := 0\<rparr>
          else if ch = 104 \<or> ch = 72 then s\<lparr>showHelp := \<not> showHelp s\<rparr>
          else if ch = 47 then s\<lparr>searchMode := True, searchFilter := []\<rparr>
          else s)"

text \<open>
  The runtime functions the loop depends on, and what the outside world delivers in one
  iteration.
\<close>

record runtime =
  std_sort :: "(ProcessInfo \<Rightarrow> ProcessInfo \<Rightarrow> bool) \<Rightarrow> ProcessInfo list \<Rightarrow> ProcessInfo list"
  towlower :: "wchar \<Rightarrow> wchar"
  iswprint :: "int \<Rightarrow> bool"

record cycle_input =
  keyboard :: key_event
  snapshot :: snapshot_obs
  systimes :: "(FILETIME \<times> FILETIME \<times> FILETIME) option"

text \<open>
  One iteration of the loop (lines 179-263) up to the rendering: the keyboard block,
  then either the help screen (\<^verbatim>\<open>continue\<close>) or the snapshot, the system percentage
  and the filter.
\<close>

definition cycle :: "runtime \<Rightarrow> cycle_input \<Rightarrow> wtop_state \<Rightarrow> wtop_state" where
  "cycle rt inp s0 =
     (let s = handle_key (iswprint rt) (keyboard inp) s0
      in if showHelp s then s
         else
           (case GetProcesses (std_sort rt) (snapshot inp) (allProcesses s) (sortByCpu s) (glob s) of
              (list, g) \<Rightarrow>
                (case GetSystemCPU (systimes inp) (sysPrev s) of
                   (c, prev) \<Rightarrow>
                     s\<lparr>glob := g, sysPrev := prev, allProcesses := list,
                       filtered := apply_filter (towlower rt) (searchFilter s) list\<rparr>)))"

text \<open>The loop over a sequence of iterations.\<close>

fun run :: "runtime \<Rightarrow> cycle_input list \<Rightarrow> wtop_state \<Rightarrow> wtop_state" where
  "run rt [] s = s"
| "run rt (inp # inps) s = run rt inps (cycle rt inp s)"

text \<open>The rows that the rendering loop prints (lines 252-260).\<close>

definition shown_rows :: "wtop_state \<Rightarrow> ProcessInfo list" where
  "shown_rows s = take 15 (drop (nat (scroll s)) (filtered s))"

text \<open>
  The range the specification gives for the scroll offset, with the page size 15 of the
  program.
\<close>

definition scroll_in_range :: "wtop_state \<Rightarrow> bool" where
  "scroll_in_range s \<longleftrightarrow> 0 \<le> scroll s \<and> scroll s \<le> max 0 (int (length (filtered s)) - 15)"


subsection \<open>Concrete inputs\<close>

text \<open>
  A table snapshot with a single process \<open>i\<close> whose kernel time is \<open>c\<close> and whose
  user time is 0, taken when the system's kernel time is \<open>s\<close> and its user time is 0;
  and the two maps holding one baseline.
\<close>

definition one_proc_obs :: "DWORD \<Rightarrow> DWORD \<Rightarrow> DWORD \<Rightarrow> snapshot_obs" where
  "one_proc_obs i c s =
     \<lparr>toolhelp = Some [\<lparr>th32ProcessID = i, szExeFile = [], query = Handle (Some 0) (Some (ft_low c, ft_low 0))\<rparr>],
      sysKernel = ft_low s, sysUser = ft_low 0\<rparr>"

definition one_baseline :: "DWORD \<Rightarrow> ULONGLONG \<Rightarrow> ULONGLONG \<Rightarrow> globals" where
  "one_baseline i c s = \<lparr>lastProcTime = [i \<mapsto> c], lastSysTime = [i \<mapsto> s]\<rparr>"

text \<open>
  Wide strings written as ASCII text, a runtime made of insertion sort and the two ASCII
  functions, a list element with a given identifier and name, inputs of one iteration
  with and without a key (the system times they deliver are idle 50, kernel 100, user 0),
  a snapshot whose enumeration cannot be started, and an iteration that sees one process.
\<close>

definition wstr :: "string \<Rightarrow> wstring" where
  "wstr cs = map (\<lambda>c. of_char c) cs"

definition sample_runtime :: runtime where
  "sample_runtime = \<lparr>std_sort = insertion_sort, towlower = ascii_lower, iswprint = ascii_print\<rparr>"

definition named_info :: "DWORD \<Rightarrow> string \<Rightarrow> ProcessInfo" where
  "named_info i cs = \<lparr>pid = i, name = wstr cs, memory = 0, cpu = Fin 0\<rparr>"

definition key_input :: "int \<Rightarrow> int \<Rightarrow> snapshot_obs \<Rightarrow> cycle_input" where
  "key_input ch ch2 obs =
     \<lparr>keyboard = Key ch ch2, snapshot = obs, systimes = Some (ft_low 50, ft_low 100, ft_low 0)\<rparr>"

definition idle_input :: "snapshot_obs \<Rightarrow> cycle_input" where
  "idle_input obs =
     \<lparr>keyboard = NoKey, snapshot = obs, systimes = Some (ft_low 50, ft_low 100, ft_low 0)\<rparr>"

definition failed_obs :: snapshot_obs where
  "failed_obs = \<lparr>toolhelp = None, sysKernel = ft_low 0, sysUser = ft_low 0\<rparr>"

definition ok_input :: cycle_input where
  "ok_input = idle_input (one_proc_obs 7 1200 5500)"

text \<open>
  A process table of sixteen processes that cannot be opened, fifteen named \<open>a.exe\<close> and
  one named \<open>z.exe\<close>, and the iterations: no key, Down, \<open>/\<close>, \<open>z\<close>, Enter. Then a
  snapshot of three processes with their baselines: the percentages are 20, 10 and 30, the
  working sets 50, 70 and 60.
\<close>

definition table_entry :: "string \<Rightarrow> DWORD \<Rightarrow> proc_entry" where
  "table_entry cs i = \<lparr>th32ProcessID = i, szExeFile = wstr cs, query = NoHandle\<rparr>"

definition table_obs :: snapshot_obs where
  "table_obs =
     \<lparr>toolhelp = Some (map (table_entry ''a.exe'') [1, 2, 3, 4, 5, 6, 7, 8, 9, 10, 11, 12, 13, 14, 15]
                       @ [table_entry ''z.exe'' 16]),
      sysKernel = ft_low 100, sysUser = ft_low 0\<rparr>"

definition scroll_then_filter :: "cycle_input list" where
  "scroll_then_filter =
     [idle_input table_obs, key_input 224 80 table_obs, key_input 47 0 table_obs,
      key_input 122 0 table_obs, key_input 13 0 table_obs]"





section \<open>Properties\<close>

subsection \<open>Rounding\<close>

lemma FileTimeToULL_ft_low [simp]: "FileTimeToULL (ft_low n) = ucast n"
  by (simp add: FileTimeToULL_def ft_low_def)

lemma bit_length_bounds: "0 < n \<Longrightarrow> 2 ^ (bit_length n - 1) \<le> n \<and> n < 2 ^ bit_length n"
proof (induction n rule: bit_length.induct)
  case (1 n)
  show ?case
  proof (cases "n div 2 = 0")
    case True
    with "1.prems" have "n = 1" by (simp add: div_eq_0_iff)
    then show ?thesis by (simp add: bit_length.simps)
  next
    case False
    then have pos: "0 < n div 2" by simp
    from "1.IH" [OF _ pos] "1.prems"
    have ih: "2 ^ (bit_length (n div 2) - 1) \<le> n div 2" "n div 2 < 2 ^ bit_length (n div 2)"
      by simp_all
    have bl: "bit_length n = Suc (bit_length (n div 2))"
      using "1.prems" by (simp add: bit_length.simps [of n])
    have "0 < bit_length (n div 2)"
      using pos by (simp add: bit_length.simps [of "n div 2"])
    then obtain m where m: "bit_length (n div 2) = Suc m" by (cases "bit_length (n div 2)") auto
    from ih m have "2 ^ m \<le> n div 2" "n div 2 < 2 ^ Suc m" by simp_all
    then have "2 ^ Suc m \<le> n" "n < 2 ^ Suc (Suc m)" by simp_all
    with bl m show ?thesis by simp
  qed
qed

lemma bit_length_0 [simp]: "bit_length 0 = 0"
  by (simp add: bit_length.simps)

lemma round_nat_error:
  assumes "0 < p"
  shows "\<bar>real (round_nat p n) - real n\<bar> \<le> real n / 2 ^ p"
proof (cases "bit_length n - p = 0")
  case True
  then show ?thesis by (simp add: round_nat_def)
next
  case False
  define k where "k = bit_length n - p"
  define q where "q = n div 2 ^ k"
  define r where "r = n mod 2 ^ k"
  define h :: nat where "h = 2 ^ (k - 1)"
  from False have k: "0 < k" and len: "bit_length n = k + p" by (simp_all add: k_def)
  then have npos: "0 < n" by (cases "n = 0") auto
  have two_h: "2 ^ k = 2 * h" using k by (cases k) (simp_all add: h_def)
  have n: "n = q * 2 ^ k + r" unfolding q_def r_def by (rule div_mult_mod_eq [symmetric])
  have "r < 2 ^ k" by (simp add: r_def)
  with two_h have r: "r < 2 * h" by simp
  have "2 ^ (k + p - 1) \<le> n" using bit_length_bounds [OF npos] len by simp
  moreover have "(2::nat) ^ (k + p - 1) = h * 2 ^ p"
    using k by (cases k) (simp_all add: h_def power_add)
  ultimately have big: "h * 2 ^ p \<le> n" by simp
  have res: "round_nat p n = (if h < r \<or> (r = h \<and> odd q) then q + 1 else q) * 2 ^ k"
    using False by (simp add: round_nat_def Let_def k_def q_def r_def h_def)
  have "\<bar>real (round_nat p n) - real n\<bar> \<le> real h"
  proof (cases "h < r \<or> (r = h \<and> odd q)")
    case True
    then have "h \<le> r" by auto
    have "round_nat p n = q * 2 ^ k + 2 * h" using True res two_h by (simp add: algebra_simps)
    then have "real (round_nat p n) - real n = real (2 * h) - real r" using n by simp
    with r \<open>h \<le> r\<close> show ?thesis by simp
  next
    case False
    then have "r \<le> h" by auto
    have "round_nat p n = q * 2 ^ k" using False res by simp
    then have "real (round_nat p n) - real n = - real r" using n by simp
    with \<open>r \<le> h\<close> show ?thesis by simp
  qed
  also have "real h \<le> real n / 2 ^ p"
  proof -
    from big have "real h * 2 ^ p \<le> real n"
      by (metis of_nat_le_iff of_nat_mult of_nat_numeral of_nat_power)
    then show ?thesis by (simp add: le_divide_eq)
  qed
  finally show ?thesis .
qed

lemma round_nat_eq_0: "0 < p \<Longrightarrow> round_nat p n = 0 \<longleftrightarrow> n = 0"
proof
  assume p: "0 < p" and z: "round_nat p n = 0"
  from round_nat_error [OF p, of n] z have "real n \<le> real n / 2 ^ p" by simp
  moreover have "(2::real) \<le> 2 ^ p" using p by (cases p) (simp_all add: self_le_power)
  ultimately have "real n / 2 ^ p \<le> real n / 2"
    by (intro divide_left_mono) simp_all
  with \<open>real n \<le> real n / 2 ^ p\<close> have "real n \<le> real n / 2" by (rule order_trans)
  then show "n = 0" by simp
next
  assume "n = 0"
  then show "round_nat p n = 0" by (simp add: round_nat_def)
qed

lemma pow_quot_powi: "(2::real) ^ nat s / 2 ^ nat (- s) = 2 powi s"
  by (cases "0 \<le> s") (simp_all add: power_int_def field_simps)

lemma bit_length_powi:
  assumes "0 < n"
  shows "2 powi (int (bit_length n) - 1) \<le> real n" and "real n < 2 powi int (bit_length n)"
proof -
  from bit_length_bounds [OF assms]
  have lo: "2 ^ (bit_length n - 1) \<le> n" and hi: "n < 2 ^ bit_length n" by simp_all
  have pos: "0 < bit_length n" using assms by (simp add: bit_length.simps [of n])
  then have "int (bit_length n) - 1 = int (bit_length n - 1)" by simp
  then have "(2::real) powi (int (bit_length n) - 1) = 2 ^ (bit_length n - 1)"
    by (simp only: power_int_of_nat)
  also have "\<dots> \<le> real n" using lo
    by (metis of_nat_le_iff of_nat_numeral of_nat_power)
  finally show "2 powi (int (bit_length n) - 1) \<le> real n" .
  have "real n < 2 ^ bit_length n" using hi
    by (metis of_nat_less_iff of_nat_numeral of_nat_power)
  then show "real n < 2 powi int (bit_length n)" by (simp only: power_int_of_nat)
qed

lemma round_div_nonneg: "0 \<le> round_div p a b"
  by (simp add: round_div_def Let_def)

lemma round_div_error:
  assumes p: "0 < p" and b: "0 < b"
  shows "\<bar>round_div p a b - real a / real b\<bar> \<le> (real a / real b) / 2 ^ p"
proof (cases "a = 0")
  case True
  then show ?thesis by (simp add: round_div_def)
next
  case False
  then have a: "0 < a" by simp
  define d where "d = int (bit_length a) - int (bit_length b)"
  define e where "e = (if b * 2 ^ nat d \<le> a * 2 ^ nat (- d) then d else d - 1)"
  define s where "s = int p - 1 - e"
  define num where "num = a * 2 ^ nat s"
  define den where "den = b * 2 ^ nat (- s)"
  define q where "q = num div den"
  define r where "r = num mod den"
  define n where "n = (if den < 2 * r \<or> (2 * r = den \<and> odd q) then q + 1 else q)"
  define c :: real where "c = 2 ^ nat (- s) / 2 ^ nat s"
  define X where "X = real num / real den"
  have res: "round_div p a b = real n * c"
    using False
    by (simp add: round_div_def Let_def d_def e_def s_def num_def den_def q_def r_def n_def c_def)
  have den_pos: "0 < den" using b by (simp add: den_def)
  have c_pos: "0 < c" by (simp add: c_def)
  have c_powi: "c = 2 powi (- s)"
    using pow_quot_powi [of "- s"] by (simp add: c_def)
  have ratio: "real a / real b = X * c"
    by (simp add: X_def c_def num_def den_def)
  have X_powi: "X = (real a / real b) * 2 powi s"
    using pow_quot_powi [of s] by (simp add: X_def num_def den_def field_simps)
  \<comment> \<open>the exponent is not above the binary logarithm of the quotient\<close>
  have e_le: "2 powi e \<le> real a / real b"
  proof (cases "b * 2 ^ nat d \<le> a * 2 ^ nat (- d)")
    case True
    then have "real (b * 2 ^ nat d) \<le> real (a * 2 ^ nat (- d))" by (simp only: of_nat_le_iff)
    then have "real b * 2 ^ nat d \<le> real a * 2 ^ nat (- d)" by simp
    then have "2 ^ nat d / 2 ^ nat (- d) \<le> real a / real b"
      using b by (simp add: field_simps)
    then show ?thesis using True by (simp add: e_def pow_quot_powi)
  next
    case False
    have "d - 1 = (int (bit_length a) - 1) - int (bit_length b)"
      by (simp add: d_def)
    then have "(2::real) powi (d - 1) = 2 powi (int (bit_length a) - 1) / 2 powi int (bit_length b)"
      by (metis power_int_diff zero_neq_numeral)
    also have "\<dots> \<le> real a / 2 powi int (bit_length b)"
      using bit_length_powi(1) [OF a] by (simp add: divide_right_mono)
    also have "\<dots> \<le> real a / real b"
      using bit_length_powi(2) [OF b] b by (intro divide_left_mono) simp_all
    finally show ?thesis using False by (simp add: e_def)
  qed
  have X_big: "2 ^ (p - 1) \<le> X"
  proof -
    have "(2::real) ^ (p - 1) = 2 powi (int p - 1)"
      using p by (simp add: power_int_def nat_diff_distrib')
    also have "\<dots> = 2 powi e * 2 powi s"
      by (simp add: s_def power_int_add [symmetric])
    also have "\<dots> \<le> (real a / real b) * 2 powi s"
      using e_le by (intro mult_right_mono) simp_all
    finally show ?thesis by (simp add: X_powi)
  qed
  \<comment> \<open>the scaled quotient is rounded to a nearest integer\<close>
  have split: "real num = real q * real den + real r"
    unfolding q_def r_def by (metis div_mult_mod_eq of_nat_add of_nat_mult)
  have r_lt: "r < den" using den_pos by (simp add: r_def)
  have X_eq: "X = real q + real r / real den"
    using den_pos by (simp add: X_def split add_divide_distrib)
  have near: "\<bar>real n - X\<bar> \<le> 1 / 2"
  proof (cases "den < 2 * r \<or> (2 * r = den \<and> odd q)")
    case True
    then have "den \<le> 2 * r" by auto
    then have "real den \<le> 2 * real r" by (metis of_nat_le_iff of_nat_mult of_nat_numeral)
    then have "1 / 2 \<le> real r / real den" using den_pos by (simp add: field_simps)
    moreover have "real r / real den < 1" using r_lt den_pos by simp
    moreover have "real n = real q + 1" using True by (simp add: n_def)
    ultimately show ?thesis using X_eq by simp
  next
    case False
    then have "2 * r \<le> den" by auto
    then have "2 * real r \<le> real den" by (metis of_nat_le_iff of_nat_mult of_nat_numeral)
    then have "real r / real den \<le> 1 / 2" using den_pos by (simp add: field_simps)
    moreover have "0 \<le> real r / real den" by simp
    moreover have "real n = real q" using False by (simp add: n_def)
    ultimately show ?thesis using X_eq by simp
  qed
  have "\<bar>round_div p a b - real a / real b\<bar> = \<bar>real n - X\<bar> * c"
    using c_pos by (simp add: res ratio left_diff_distrib [symmetric] abs_mult)
  also have "\<dots> \<le> (1 / 2) * c"
    using near c_pos by (intro mult_right_mono) simp_all
  also have "\<dots> \<le> (X / 2 ^ p) * c"
  proof -
    have "(2::real) ^ p = 2 * 2 ^ (p - 1)" using p by (cases p) simp_all
    then have "1 / 2 \<le> X / 2 ^ p" using X_big by (simp add: field_simps)
    then show ?thesis using c_pos by (intro mult_right_mono) simp_all
  qed
  also have "\<dots> = (real a / real b) / 2 ^ p" by (simp add: ratio)
  finally show ?thesis .
qed

lemma abs_error_bounds:
  fixes x y u :: real
  assumes "\<bar>y - x\<bar> \<le> x * u"
  shows "x * (1 - u) \<le> y" and "y \<le> x * (1 + u)"
  using assms by (simp_all add: algebra_simps abs_le_iff)

lemma rate_sandwich:
  fixes a b p :: nat
  assumes p: "0 < p" and b: "0 < b"
  defines "u \<equiv> 1 / (2::real) ^ p"
  defines "Q \<equiv> round_div p (round_nat p (round_nat p a * 100)) (round_nat p b)"
  shows "(100 * real a / real b) * ((1 - u) ^ 3 / (1 + u)) \<le> Q"
    and "Q \<le> (100 * real a / real b) * ((1 + u) ^ 3 / (1 - u))"
proof -
  define A where "A = real (round_nat p a)"
  define P where "P = real (round_nat p (round_nat p a * 100))"
  define B where "B = real (round_nat p b)"
  have u0: "0 < u" by (simp add: u_def)
  have "(2::real) \<le> 2 ^ p" using p by (cases p) (simp_all add: self_le_power)
  then have u1: "u \<le> 1 / 2" by (simp add: u_def field_simps)
  have Bnat: "0 < round_nat p b" using round_nat_eq_0 [OF p, of b] b by simp
  have A: "a * (1 - u) \<le> A" "A \<le> a * (1 + u)"
    using abs_error_bounds [of A "real a" u] round_nat_error [OF p, of a]
    by (simp_all add: A_def u_def)
  have P: "100 * A * (1 - u) \<le> P" "P \<le> 100 * A * (1 + u)"
    using abs_error_bounds [of P "100 * A" u] round_nat_error [OF p, of "round_nat p a * 100"]
    by (simp_all add: A_def P_def u_def mult.commute)
  have B: "b * (1 - u) \<le> B" "B \<le> b * (1 + u)"
    using abs_error_bounds [of B "real b" u] round_nat_error [OF p, of b]
    by (simp_all add: B_def u_def)
  have Bpos: "0 < B" using Bnat by (simp add: B_def)
  have Q: "P / B * (1 - u) \<le> Q" "Q \<le> P / B * (1 + u)"
    using abs_error_bounds [of Q "P / B" u]
      round_div_error [OF p Bnat, of "round_nat p (round_nat p a * 100)"]
    by (simp_all add: Q_def P_def B_def u_def)
  have A0: "0 \<le> A" by (simp add: A_def)
  have P0: "0 \<le> P" by (simp add: P_def)
  have lo_b: "0 < real b * (1 - u)" using b u1 by simp
  \<comment> \<open>upper bound\<close>
  have "100 * A \<le> 100 * (real a * (1 + u))" using A(2) by simp
  then have "100 * A * (1 + u) \<le> 100 * (real a * (1 + u)) * (1 + u)"
    using u0 by (intro mult_right_mono) simp_all
  with P(2) have "P \<le> 100 * (real a * (1 + u)) * (1 + u)" by simp
  then have Pup: "P \<le> 100 * real a * (1 + u) ^ 2"
    by (simp add: power2_eq_square algebra_simps)
  have "P / B \<le> (100 * real a * (1 + u) ^ 2) / (real b * (1 - u))"
    using Pup lo_b B(1) u0 by (intro frac_le) simp_all
  then have "P / B * (1 + u) \<le> (100 * real a * (1 + u) ^ 2) / (real b * (1 - u)) * (1 + u)"
    using u0 by (intro mult_right_mono) simp_all
  with Q(2) have "Q \<le> (100 * real a * (1 + u) ^ 2) / (real b * (1 - u)) * (1 + u)"
    by simp
  also have "\<dots> = (100 * real a / real b) * ((1 + u) ^ 3 / (1 - u))"
    by (simp add: power3_eq_cube power2_eq_square)
  finally show "Q \<le> (100 * real a / real b) * ((1 + u) ^ 3 / (1 - u))" .
  \<comment> \<open>lower bound\<close>
  have "100 * (real a * (1 - u)) \<le> 100 * A" using A(1) by simp
  then have "100 * (real a * (1 - u)) * (1 - u) \<le> 100 * A * (1 - u)"
    using u1 by (intro mult_right_mono) simp_all
  with P(1) have "100 * (real a * (1 - u)) * (1 - u) \<le> P" by simp
  then have Plo: "100 * real a * (1 - u) ^ 2 \<le> P"
    by (simp add: power2_eq_square algebra_simps)
  have "(100 * real a * (1 - u) ^ 2) / (real b * (1 + u)) \<le> P / B"
    using Plo Bpos B(2) P0 by (intro frac_le) simp_all
  then have "(100 * real a * (1 - u) ^ 2) / (real b * (1 + u)) * (1 - u) \<le> P / B * (1 - u)"
    using u1 by (intro mult_right_mono) simp_all
  with Q(1) have low: "(100 * real a * (1 - u) ^ 2) / (real b * (1 + u)) * (1 - u) \<le> Q"
    by simp
  have "(100 * real a / real b) * ((1 - u) ^ 3 / (1 + u))
      = (100 * real a * (1 - u) ^ 2) / (real b * (1 + u)) * (1 - u)"
    by (simp add: power3_eq_cube power2_eq_square)
  also note low
  finally show "(100 * real a / real b) * ((1 - u) ^ 3 / (1 + u)) \<le> Q" .
qed

lemma sandwich_abs:
  fixes x Q lo hi eps :: real
  assumes "0 \<le> x" and "x * lo \<le> Q" and "Q \<le> x * hi" and "1 - eps \<le> lo" and "hi \<le> 1 + eps"
  shows "\<bar>Q - x\<bar> \<le> x * eps"
proof -
  have "x * (1 - eps) \<le> x * lo" using assms(1,4) by (rule mult_left_mono [rotated])
  moreover have "x * hi \<le> x * (1 + eps)" using assms(1,5) by (rule mult_left_mono [rotated])
  ultimately show ?thesis using assms(2,3) by (simp add: algebra_simps abs_le_iff)
qed

lemma float_rate_error:
  assumes "0 < b"
  shows "\<bar>round_div 24 (round_nat 24 (round_nat 24 a * 100)) (round_nat 24 b) - 100 * real a / real b\<bar>
         \<le> (100 * real a / real b) / 2 ^ 21"
proof -
  have "\<bar>round_div 24 (round_nat 24 (round_nat 24 a * 100)) (round_nat 24 b) - 100 * real a / real b\<bar>
         \<le> (100 * real a / real b) * (1 / 2 ^ 21)"
    by (rule sandwich_abs [OF _ rate_sandwich [OF _ assms, of 24 a]]) (simp_all add: power3_eq_cube)
  then show ?thesis by simp
qed

lemma double_rate_error:
  assumes "0 < b"
  shows "\<bar>round_div 53 (round_nat 53 (round_nat 53 a * 100)) (round_nat 53 b) - 100 * real a / real b\<bar>
         \<le> (100 * real a / real b) / 2 ^ 50"
proof -
  have "\<bar>round_div 53 (round_nat 53 (round_nat 53 a * 100)) (round_nat 53 b) - 100 * real a / real b\<bar>
         \<le> (100 * real a / real b) * (1 / 2 ^ 50)"
    by (rule sandwich_abs [OF _ rate_sandwich [OF _ assms, of 53 a]]) (simp_all add: power3_eq_cube)
  then show ?thesis by simp
qed

text \<open>The definitions that evaluate a floating-point computation on numerals.\<close>

lemmas fp_eval = fp_of_ull_def fp_mul_def fp_div_def round_nat_def round_div_def bit_length.simps

lemma fp_of_ull_eq_0: "0 < p \<Longrightarrow> fp_of_ull p w = 0 \<longleftrightarrow> w = 0"
  by (simp add: fp_of_ull_def round_nat_eq_0 unat_eq_0)

lemma fp_div_Fin: "y \<noteq> 0 \<Longrightarrow> fp_div p x y = Fin (round_div p x y)"
  by (simp add: fp_div_def)

lemma GetSystemCPU_Some:
  "GetSystemCPU (Some (idle, kern, usr)) prev =
    (let sys = (FileTimeToULL kern + FileTimeToULL usr) -
               (FileTimeToULL (prevKernel prev) + FileTimeToULL (prevUser prev));
         idleDiff = FileTimeToULL idle - FileTimeToULL (prevIdle prev)
     in (if sys = 0 then Fin 0
         else Fin (round_div 24 (round_nat 24 (round_nat 24 (unat (sys - idleDiff)) * 100))
                     (round_nat 24 (unat sys))),
         \<lparr>prevIdle = idle, prevKernel = kern, prevUser = usr\<rparr>))"
  by (simp add: GetSystemCPU_def Let_def fp_div_Fin fp_of_ull_eq_0)
    (simp add: fp_of_ull_def fp_mul_def)

subsection \<open>Strict weak orderings and insertion sort\<close>

lemma strict_weak_asym: 
  "strict_weak_on A c \<Longrightarrow> a \<in> A \<Longrightarrow> b \<in> A \<Longrightarrow> c a b \<Longrightarrow> \<not> c b a"
  unfolding strict_weak_on_def by blast

lemma strict_weak_negtrans:
  assumes sw: "strict_weak_on A c" and m: "a \<in> A" "b \<in> A" "d \<in> A"
    and ab: "\<not> c a b" and bd: "\<not> c b d"
  shows "\<not> c a d"
proof
  assume ad: "c a d"
  have irr: "\<And>x. x \<in> A \<Longrightarrow> \<not> c x x"
    and tr: "\<And>x y z. x \<in> A \<Longrightarrow> y \<in> A \<Longrightarrow> z \<in> A \<Longrightarrow> c x y \<Longrightarrow> c y z \<Longrightarrow> c x z"
    and eq: "\<And>x y z. x \<in> A \<Longrightarrow> y \<in> A \<Longrightarrow> z \<in> A \<Longrightarrow> \<not> c x y \<Longrightarrow> \<not> c y x \<Longrightarrow> \<not> c y z \<Longrightarrow> \<not> c z y \<Longrightarrow> \<not> c x z"
    using sw unfolding strict_weak_on_def by blast+
  have ba: "\<not> c b a" using tr [OF m(2) m(1) m(3)] ad bd by blast
  have db: "\<not> c d b" using tr [OF m(1) m(3) m(2)] ad ab by blast
  from eq [OF m ab ba bd db] ad show False by blast
qed

lemma set_insert_by [simp]: "set (insert_by c x xs) = insert x (set xs)"
  by (induction xs) auto

lemma mset_insert_by [simp]: "mset (insert_by c x xs) = add_mset x (mset xs)"
  by (induction xs) auto

lemma mset_insertion_sort [simp]: "mset (insertion_sort c xs) = mset xs"
  by (induction xs) auto

lemma set_insertion_sort [simp]: "set (insertion_sort c xs) = set xs"
  by (induction xs) auto

lemma sorted_insert_by:
  assumes sw: "strict_weak_on A c" and "x \<in> A" and "set xs \<subseteq> A"
    and "sorted_wrt (\<lambda>a b. \<not> c b a) xs"
  shows "sorted_wrt (\<lambda>a b. \<not> c b a) (insert_by c x xs)"
  using assms(2-)
proof (induction xs)
  case Nil
  then show ?case by simp
next
  case (Cons y ys)
  show ?case
  proof (cases "c y x")
    case True
    have "\<not> c x y" using strict_weak_asym [OF sw _ _ True] Cons.prems by auto
    with True Cons show ?thesis by auto
  next
    case False
    have "\<not> c z x" if "z \<in> set ys" for z
    proof -
      have "\<not> c z y" using Cons.prems that by auto
      from strict_weak_negtrans [OF sw _ _ _ this False] that Cons.prems show ?thesis by auto
    qed
    with False Cons.prems show ?thesis by auto
  qed
qed

lemma sorted_insertion_sort:
  "strict_weak_on A c \<Longrightarrow> set xs \<subseteq> A \<Longrightarrow> sorted_wrt (\<lambda>a b. \<not> c b a) (insertion_sort c xs)"
proof (induction xs)
  case Nil
  then show ?case by simp
next
  case (Cons x xs)
  have "sorted_wrt (\<lambda>a b. \<not> c b a) (insertion_sort c xs)"
    using Cons by simp
  moreover have "x \<in> A" and "set (insertion_sort c xs) \<subseteq> A"
    using Cons.prems by simp_all
  ultimately show ?case
    using sorted_insert_by [OF Cons.prems(1)] by simp
qed

lemma insertion_sort_contract: "sort_contract insertion_sort"
  unfolding sort_contract_def using sorted_insertion_sort [OF _ subset_refl] by auto


subsection \<open>The enumeration loop\<close>

lemma real_unat_diff: "b \<le> a \<Longrightarrow> real (unat (a - b)) = real (unat a) - real (unat b)"
  by (simp add: unat_sub word_le_nat_alt)

lemma process_one_pid [simp]: "pid (fst (process_one nowSys pe g)) = th32ProcessID pe"
  by (simp add: process_one_def Let_def split: proc_query.split option.split prod.split)

lemma process_one_name [simp]: "name (fst (process_one nowSys pe g)) = szExeFile pe"
  by (simp add: process_one_def Let_def split: proc_query.split option.split prod.split)

lemma process_one_cpu_times:
  assumes "query pe = Handle pmc (Some (kern, usr))"
  shows "cpu (fst (process_one nowSys pe g)) =
     (if 0 < map_index (lastSysTime g) (th32ProcessID pe) \<and>
         map_index (lastSysTime g) (th32ProcessID pe) < nowSys
      then Fin (round_div 53
                  (round_nat 53
                     (round_nat 53 (unat (FileTimeToULL kern + FileTimeToULL usr -
                                          map_index (lastProcTime g) (th32ProcessID pe))) * 100))
                  (round_nat 53 (unat (nowSys - map_index (lastSysTime g) (th32ProcessID pe)))))
      else Fin 0)"
proof -
  have "fp_of_ull 53 (nowSys - s) \<noteq> 0" if "s < nowSys" for s
    using that by (simp add: fp_of_ull_eq_0)
  then show ?thesis
    using assms by (simp add: process_one_def Let_def fp_div_Fin) (simp add: fp_of_ull_def fp_mul_def)
qed

lemma process_one_cpu_no_times:
  "query pe = NoHandle \<or> query pe = Handle pmc None \<Longrightarrow> cpu (fst (process_one nowSys pe g)) = Fin 0"
  by (auto simp: process_one_def Let_def)

lemma process_one_globals_no_times:
  "query pe = NoHandle \<or> query pe = Handle pmc None \<Longrightarrow> snd (process_one nowSys pe g) = g"
  by (auto simp: process_one_def Let_def)

lemma process_one_is_Fin: "is_Fin (cpu (fst (process_one nowSys pe g)))"
proof (cases "query pe")
  case NoHandle
  then show ?thesis by (simp add: process_one_cpu_no_times)
next
  case (Handle pmc tms)
  show ?thesis
  proof (cases tms)
    case None
    with Handle show ?thesis by (simp add: process_one_cpu_no_times)
  next
    case (Some ku)
    obtain kern usr where "ku = (kern, usr)" by (cases ku)
    with Handle Some show ?thesis by (simp add: process_one_cpu_times)
  qed
qed

text \<open>The loop body reads the two maps only at the identifier of its own entry.\<close>

lemma process_one_other:
  "th32ProcessID pe \<noteq> th32ProcessID pe0 \<Longrightarrow>
   map_index (lastProcTime (snd (process_one n pe0 g))) (th32ProcessID pe) = map_index (lastProcTime g) (th32ProcessID pe)
   \<and> map_index (lastSysTime (snd (process_one n pe0 g))) (th32ProcessID pe) = map_index (lastSysTime g) (th32ProcessID pe)"
  by (simp add: process_one_def Let_def map_index_def split: proc_query.split option.split prod.split)

lemma process_one_cong:
  assumes "map_index (lastProcTime g') (th32ProcessID pe) = map_index (lastProcTime g) (th32ProcessID pe)"
    and "map_index (lastSysTime g') (th32ProcessID pe) = map_index (lastSysTime g) (th32ProcessID pe)"
  shows "fst (process_one n pe g') = fst (process_one n pe g)"
  using assms by (simp add: process_one_def Let_def split: proc_query.split option.split prod.split)

lemma enumerate_procs_distinct:
  assumes "distinct (map th32ProcessID pes)"
    and "\<forall>pe\<in>set pes. map_index (lastProcTime g') (th32ProcessID pe) = map_index (lastProcTime g) (th32ProcessID pe)
           \<and> map_index (lastSysTime g') (th32ProcessID pe) = map_index (lastSysTime g) (th32ProcessID pe)" 
  shows "fst (enumerate_procs n pes l g') = l @ map (\<lambda>pe. fst (process_one n pe g)) pes"
  using assms
proof (induction pes arbitrary: l g')
  case Nil
  then show ?case by simp
next
  case (Cons pe0 pes)
  obtain p g1 where step: "process_one n pe0 g' = (p, g1)" by (cases "process_one n pe0 g'")
  have p: "p = fst (process_one n pe0 g)"
    using process_one_cong [of g' pe0 g n] Cons.prems(2) step by simp
  have "\<forall>pe\<in>set pes. map_index (lastProcTime g1) (th32ProcessID pe) = map_index (lastProcTime g) (th32ProcessID pe)
           \<and> map_index (lastSysTime g1) (th32ProcessID pe) = map_index (lastSysTime g) (th32ProcessID pe)"
  proof
    fix pe assume pe: "pe \<in> set pes"
    then have "th32ProcessID pe \<in> th32ProcessID ` set pes" by (rule imageI)
    moreover have "th32ProcessID pe0 \<notin> th32ProcessID ` set pes" using Cons.prems(1) by simp
    ultimately have "th32ProcessID pe \<noteq> th32ProcessID pe0" by metis
    from process_one_other [OF this, where n = n and g = g'] step Cons.prems(2) pe
    show "map_index (lastProcTime g1) (th32ProcessID pe) = map_index (lastProcTime g) (th32ProcessID pe)
           \<and> map_index (lastSysTime g1) (th32ProcessID pe) = map_index (lastSysTime g) (th32ProcessID pe)"
      by simp
  qed
  from Cons.IH [OF _ this, of "l @ [p]"] Cons.prems(1) step p show ?case by simp
qed

lemma enumerate_procs_is_Fin:
  "\<forall>p\<in>set l. is_Fin (cpu p) \<Longrightarrow> \<forall>p\<in>set (fst (enumerate_procs n pes l g)). is_Fin (cpu p)"
proof (induction pes arbitrary: l g)
  case Nil
  then show ?case by simp
next
  case (Cons pe pes)
  obtain p g1 where step: "process_one n pe g = (p, g1)" by (cases "process_one n pe g")
  then have "is_Fin (cpu p)" using process_one_is_Fin [of n pe g] by simp
  with Cons.prems have "\<forall>q\<in>set (l @ [p]). is_Fin (cpu q)" by simp
  from Cons.IH [OF this] step show ?case by simp
qed

lemma sort_cmp_strict_weak:
  assumes "\<forall>p\<in>A. is_Fin (cpu p)"
  shows "strict_weak_on A (sort_cmp byCpu)"
proof -
  have fin: "\<exists>x. cpu p = Fin x" if "p \<in> A" for p
    using assms that by (cases "cpu p") auto
  show ?thesis
  proof (cases byCpu)
    case True
    show ?thesis
      unfolding strict_weak_on_def sort_cmp_def using True
      by (auto dest!: fin)
  next
    case False
    then show ?thesis
      unfolding strict_weak_on_def sort_cmp_def by auto
  qed
qed

lemma GetProcesses_None:
  "toolhelp obs = None \<Longrightarrow> GetProcesses srt obs list byCpu g = ([], g)"
  by (simp add: GetProcesses_def)

lemma GetProcesses_list: "GetProcesses srt obs list byCpu g = GetProcesses srt obs [] byCpu g"
  by (simp add: GetProcesses_def)

lemma GetProcesses_Some:
  "toolhelp obs = Some pes \<Longrightarrow>
   GetProcesses srt obs list byCpu g =
     (srt (sort_cmp byCpu)
        (fst (enumerate_procs (FileTimeToULL (sysKernel obs) + FileTimeToULL (sysUser obs)) pes [] g)),
      snd (enumerate_procs (FileTimeToULL (sysKernel obs) + FileTimeToULL (sysUser obs)) pes [] g))"
  by (simp add: GetProcesses_def Let_def split: prod.split)

lemma enumerated_strict_weak:
  "strict_weak_on (set (fst (enumerate_procs n pes [] g))) (sort_cmp byCpu)"
  by (rule sort_cmp_strict_weak) (rule enumerate_procs_is_Fin, simp)

lemma GetProcesses_mset:
  assumes "sort_contract srt" and "toolhelp obs = Some pes"
  shows "mset (fst (GetProcesses srt obs list byCpu g)) =
         mset (fst (enumerate_procs (FileTimeToULL (sysKernel obs) + FileTimeToULL (sysUser obs)) pes [] g))"
  using assms(1) enumerated_strict_weak
  unfolding sort_contract_def by (simp add: GetProcesses_Some [OF assms(2)])


lemma filter_distinct_key:
  "distinct (map f xs) \<Longrightarrow> x \<in> set xs \<Longrightarrow> filter (\<lambda>y. f y = f x) xs = [x]"
proof (induction xs)
  case Nil
  then show ?case by simp
next
  case (Cons a xs)
  show ?case
  proof (cases "a = x")
    case True
    have "f x \<notin> f ` set xs" using Cons.prems(1) True by simp
    then have "\<forall>y\<in>set xs. f y \<noteq> f x" by (metis imageI)
    then have "filter (\<lambda>y. f y = f x) xs = []"
      by (simp add: filter_empty_conv)
    with True show ?thesis by simp
  next
    case False
    with Cons.prems have "x \<in> set xs" by simp
    then have "f x \<in> f ` set xs" by (rule imageI)
    moreover have "f a \<notin> f ` set xs" using Cons.prems(1) by simp
    ultimately have "f a \<noteq> f x" by metis
    with Cons \<open>x \<in> set xs\<close> show ?thesis by simp
  qed
qed

lemma mset_eq_singleton_list: "mset xs = {#x#} \<Longrightarrow> xs = [x]"
  by (cases xs) auto

lemma GetProcesses_entry:
  assumes srt: "sort_contract srt"
    and snap: "toolhelp obs = Some pes"
    and dist: "distinct (map th32ProcessID pes)"
    and pe: "pe \<in> set pes"
  shows "filter (\<lambda>q. pid q = th32ProcessID pe) (fst (GetProcesses srt obs list byCpu g)) =
         [fst (process_one (FileTimeToULL (sysKernel obs) + FileTimeToULL (sysUser obs)) pe g)]"
proof -
  let ?n = "FileTimeToULL (sysKernel obs) + FileTimeToULL (sysUser obs)"
  let ?f = "\<lambda>e. fst (process_one ?n e g)"
  let ?P = "\<lambda>q. pid q = th32ProcessID pe"
  have enum: "fst (enumerate_procs ?n pes [] g) = map ?f pes"
    using enumerate_procs_distinct [OF dist, of g g ?n "[]"] by simp
  have "filter ?P (map ?f pes) = map ?f (filter (\<lambda>e. th32ProcessID e = th32ProcessID pe) pes)"
    by (simp add: filter_map comp_def)
  also have "\<dots> = [?f pe]"
    using filter_distinct_key [OF dist pe] by simp
  finally have one: "filter ?P (map ?f pes) = [?f pe]" .
  have "mset (filter ?P (fst (GetProcesses srt obs list byCpu g))) =
        mset (filter ?P (map ?f pes))"
    using GetProcesses_mset [OF srt snap, of list byCpu g] enum
    by (metis mset_filter)
  then have "mset (filter ?P (fst (GetProcesses srt obs list byCpu g))) = {#?f pe#}"
    using one by simp
  then show ?thesis by (rule mset_eq_singleton_list)
qed

subsection \<open>Substring search\<close>

lemma wfind_sublist: "wfind hay needle \<noteq> None \<longleftrightarrow> sublist needle hay"
  by (induction hay) (auto simp: sublist_Cons_right)

lemma map_eq_list_all2: "map f xs = map f ys \<longleftrightarrow> list_all2 (\<lambda>a b. f a = f b) xs ys"
  by (induction xs arbitrary: ys) (auto simp: list_all2_Cons1 map_eq_Cons_conv)

lemma sublist_map_iff:
  "sublist (map f ys) (map f xs) \<longleftrightarrow>
   (\<exists>before mid after. xs = before @ mid @ after \<and> map f mid = map f ys)"
proof
  assume "sublist (map f ys) (map f xs)"
  then obtain ps ss where "map f xs = ps @ map f ys @ ss"
    by (auto simp: sublist_def)
  then obtain b r where xs: "xs = b @ r" and r: "map f r = map f ys @ ss"
    by (metis map_eq_append_conv)
  from r obtain m a where "r = m @ a" and "map f m = map f ys"
    by (metis map_eq_append_conv)
  with xs show "\<exists>before mid after. xs = before @ mid @ after \<and> map f mid = map f ys"
    by blast
next
  assume "\<exists>before mid after. xs = before @ mid @ after \<and> map f mid = map f ys"
  then obtain b m a where "xs = b @ m @ a" and "map f m = map f ys" by blast
  then have "map f xs = map f b @ map f ys @ map f a" by simp
  then show "sublist (map f ys) (map f xs)" unfolding sublist_def by blast
qed

lemma MatchesFilter_contains_ci: "MatchesFilter lw nm flt \<longleftrightarrow> contains_ci lw nm flt"
proof (cases "flt = []")
  case True
  have "nm = [] @ [] @ nm \<and> list_all2 (\<lambda>a b. lw a = lw b) [] ([]::wstring)" by simp
  then have "contains_ci lw nm []" unfolding contains_ci_def by blast
  with True show ?thesis by (simp add: MatchesFilter_def)
next
  case False
  then have "MatchesFilter lw nm flt \<longleftrightarrow> wfind (map lw nm) (map lw flt) \<noteq> None"
    by (simp add: MatchesFilter_def Let_def del: not_None_eq)
  also have "\<dots> \<longleftrightarrow> sublist (map lw flt) (map lw nm)"
    by (rule wfind_sublist)
  also have "\<dots> \<longleftrightarrow> (\<exists>before mid after. nm = before @ mid @ after \<and> map lw mid = map lw flt)"
    by (rule sublist_map_iff)
  also have "\<dots> \<longleftrightarrow> contains_ci lw nm flt"
    by (simp only: map_eq_list_all2 contains_ci_def)
  finally show ?thesis .
qed

subsection \<open>One iteration of the loop\<close>

lemma cycle_help:
  "showHelp (handle_key (iswprint rt) (keyboard inp) s) \<Longrightarrow>
   cycle rt inp s = handle_key (iswprint rt) (keyboard inp) s"
  by (simp add: cycle_def Let_def)

lemma cycle_snapshot:
  "\<not> showHelp (handle_key (iswprint rt) (keyboard inp) s) \<Longrightarrow>
   cycle rt inp s =
     (handle_key (iswprint rt) (keyboard inp) s)
       \<lparr>glob := snd (GetProcesses (std_sort rt) (snapshot inp)
                 (allProcesses (handle_key (iswprint rt) (keyboard inp) s))
                 (sortByCpu (handle_key (iswprint rt) (keyboard inp) s))
                 (glob (handle_key (iswprint rt) (keyboard inp) s))),
        sysPrev := snd (GetSystemCPU (systimes inp) (sysPrev (handle_key (iswprint rt) (keyboard inp) s))),
        allProcesses := fst (GetProcesses (std_sort rt) (snapshot inp)
                 (allProcesses (handle_key (iswprint rt) (keyboard inp) s))
                 (sortByCpu (handle_key (iswprint rt) (keyboard inp) s))
                 (glob (handle_key (iswprint rt) (keyboard inp) s))),
        filtered := apply_filter (towlower rt) (searchFilter (handle_key (iswprint rt) (keyboard inp) s))
                 (fst (GetProcesses (std_sort rt) (snapshot inp)
                 (allProcesses (handle_key (iswprint rt) (keyboard inp) s))
                 (sortByCpu (handle_key (iswprint rt) (keyboard inp) s))
                 (glob (handle_key (iswprint rt) (keyboard inp) s))))\<rparr>"
  by (simp add: cycle_def Let_def split: prod.split)

lemma cycle_fields [simp]:
  "sortByCpu (cycle rt inp s) = sortByCpu (handle_key (iswprint rt) (keyboard inp) s)"
  "showHelp (cycle rt inp s) = showHelp (handle_key (iswprint rt) (keyboard inp) s)"
  "scroll (cycle rt inp s) = scroll (handle_key (iswprint rt) (keyboard inp) s)"
  "searchMode (cycle rt inp s) = searchMode (handle_key (iswprint rt) (keyboard inp) s)"
  "searchFilter (cycle rt inp s) = searchFilter (handle_key (iswprint rt) (keyboard inp) s)"
  by (cases "showHelp (handle_key (iswprint rt) (keyboard inp) s)";
      simp add: cycle_help cycle_snapshot)+

lemma handle_key_frame [simp]:
  "glob (handle_key ip ev s) = glob s"
  "sysPrev (handle_key ip ev s) = sysPrev s"
  "allProcesses (handle_key ip ev s) = allProcesses s"
  "filtered (handle_key ip ev s) = filtered s"
  by (simp_all add: handle_key_def Let_def split: key_event.split)

lemma cycle_filtered:
  "\<not> showHelp (cycle rt inp s) \<Longrightarrow>
   filtered (cycle rt inp s) = apply_filter (towlower rt) (searchFilter (cycle rt inp s)) (allProcesses (cycle rt inp s))"
  by (simp add: cycle_snapshot)

lemma cycle_lists:
  assumes "\<not> showHelp (handle_key (iswprint rt) (keyboard inp) s)"
  shows "allProcesses (cycle rt inp s) =
           fst (GetProcesses (std_sort rt) (snapshot inp) []
                  (sortByCpu (handle_key (iswprint rt) (keyboard inp) s)) (glob s))"
    and "filtered (cycle rt inp s) =
           apply_filter (towlower rt) (searchFilter (handle_key (iswprint rt) (keyboard inp) s))
             (fst (GetProcesses (std_sort rt) (snapshot inp) []
                  (sortByCpu (handle_key (iswprint rt) (keyboard inp) s)) (glob s)))"
    and "glob (cycle rt inp s) =
           snd (GetProcesses (std_sort rt) (snapshot inp) []
                  (sortByCpu (handle_key (iswprint rt) (keyboard inp) s)) (glob s))"
  using assms by (simp_all add: cycle_snapshot GetProcesses_list [of _ _ "allProcesses s"])


lemma help_cycles:
  assumes "showHelp s" and "\<not> searchMode s"
    and "\<forall>i\<in>set arrows. keyboard i = NoKey \<or> (\<exists>p c. keyboard i = Key p c \<and> (p = 0 \<or> p = 224))"
  shows "run rt arrows s = s"
  using assms(3)
proof (induction arrows)
  case Nil
  then show ?case by simp
next
  case (Cons i arrows)
  have "handle_key (iswprint rt) (keyboard i) s = s"
    using Cons.prems assms(1,2) by (auto simp: handle_key_def)
  then have "cycle rt i s = s"
    using assms(1) by (simp add: cycle_help)
  with Cons show ?case by simp
qed

subsection \<open>The sorted list\<close>




subsection \<open>System-wide percentage\<close>

text \<open>
  Claim C2, as amended. After a call that sampled (idle 100, kernel 50, user 50), the
  call that samples (idle 120, kernel 70, user 60) returns the \<^verbatim>\<open>float\<close> value
  8738133 / 262144, which is 33.33333206...: the elapsed kernel plus user time is 30, the
  elapsed idle time 20 is subtracted from it, the difference 10 is multiplied by 100 and
  divided by the 30, and the quotient is rounded to single precision. It differs from
  100 * (30 - 20) / 30 by less than that number divided by \<open>2 ^ 24\<close>. The result does not
  depend on what preceded the first of the two calls.
\<close>

theorem system_cpu_scenario:
  "fst (GetSystemCPU (Some (ft_low 120, ft_low 70, ft_low 60))
         (snd (GetSystemCPU (Some (ft_low 100, ft_low 50, ft_low 50)) prev)))
   = Fin (8738133 / 262144)
   \<and> \<bar>8738133 / 262144 - 100 * (30 - 20) / 30\<bar> \<le> (100 * (30 - 20) / 30 :: real) / 2 ^ 24"
  by (simp add: GetSystemCPU_Some Let_def round_nat_def round_div_def bit_length.simps)

text \<open>
  Claim C2 as stated fails: on the sample pair of the scenario, starting from the
  program's initial statics, the second call does not return 60.
\<close>

theorem system_cpu_scenario_not_60:
  "fst (GetSystemCPU (Some (ft_low 120, ft_low 70, ft_low 60))
         (snd (GetSystemCPU (Some (ft_low 100, ft_low 50, ft_low 50)) sys_prev0)))
   \<noteq> Fin 60"
  by (simp add: GetSystemCPU_Some Let_def round_nat_def round_div_def bit_length.simps)

text \<open>
  Claim C3, as amended. The first call, made with the zero-initialised statics, has no
  special case. When kernel + user is 0 it returns 0. Otherwise it returns a percentage
  computed in \<^verbatim>\<open>float\<close> from its own sample against an all-zero previous sample: a
  number that differs from 100 * ((kernel + user - idle) mod 2^64) / (kernel + user), the
  subtraction being the unsigned 64-bit one, by at most that quotient divided by
  \<open>2 ^ 21\<close>. A call whose \<^verbatim>\<open>GetSystemTimes\<close> succeeds never returns the value -1; the
  value -1 is returned, and the statics are left alone, when \<^verbatim>\<open>GetSystemTimes\<close> fails,
  on the first call as on any other.
\<close>

theorem system_cpu_first_call:
  "(FileTimeToULL kern + FileTimeToULL usr = 0 \<longrightarrow>
      GetSystemCPU (Some (idle, kern, usr)) sys_prev0 = (Fin 0, \<lparr>prevIdle = idle, prevKernel = kern, prevUser = usr\<rparr>))
   \<and> (FileTimeToULL kern + FileTimeToULL usr \<noteq> 0 \<longrightarrow>
      (\<exists>r. GetSystemCPU (Some (idle, kern, usr)) sys_prev0 = (Fin r, \<lparr>prevIdle = idle, prevKernel = kern, prevUser = usr\<rparr>) \<and>
         \<bar>r - 100 * real (unat (FileTimeToULL kern + FileTimeToULL usr - FileTimeToULL idle))
                / real (unat (FileTimeToULL kern + FileTimeToULL usr))\<bar>
         \<le> (100 * real (unat (FileTimeToULL kern + FileTimeToULL usr - FileTimeToULL idle))
                / real (unat (FileTimeToULL kern + FileTimeToULL usr))) / 2 ^ 21))
   \<and> fst (GetSystemCPU (Some (idle, kern, usr)) prev) \<noteq> Fin (- 1)
   \<and> GetSystemCPU None prev = (Fin (- 1), prev)"
proof -
  let ?s = "FileTimeToULL kern + FileTimeToULL usr"
  have zero: "GetSystemCPU (Some (idle, kern, usr)) sys_prev0 = (Fin 0, \<lparr>prevIdle = idle, prevKernel = kern, prevUser = usr\<rparr>)" if "?s = 0"
    using that by (simp add: GetSystemCPU_Some sys_prev0_def Let_def)
  have rate: "\<exists>r. GetSystemCPU (Some (idle, kern, usr)) sys_prev0 = (Fin r, \<lparr>prevIdle = idle, prevKernel = kern, prevUser = usr\<rparr>) \<and>
         \<bar>r - 100 * real (unat (?s - FileTimeToULL idle)) / real (unat ?s)\<bar>
         \<le> (100 * real (unat (?s - FileTimeToULL idle)) / real (unat ?s)) / 2 ^ 21"
    if "?s \<noteq> 0"
  proof -
    from that have "0 < unat ?s" by (simp add: unat_gt_0)
    from float_rate_error [OF this, of "unat (?s - FileTimeToULL idle)"] that
    show ?thesis by (simp add: GetSystemCPU_Some sys_prev0_def Let_def)
  qed
  have no_sentinel: "fst (GetSystemCPU (Some (idle, kern, usr)) prev) \<noteq> Fin (- 1)"
  proof -
    have "round_div 24 x y \<noteq> - 1" for x y
      using round_div_nonneg [of 24 x y] by simp
    then show ?thesis
      by (simp add: GetSystemCPU_Some Let_def)
  qed
  have failed: "GetSystemCPU None prev = (Fin (- 1), prev)"
    by (simp add: GetSystemCPU_def)
  from zero rate no_sentinel failed show ?thesis by blast
qed

text \<open>
  The amended claim C3 at a concrete first sample (idle 20, kernel 70, user 30): the
  first call returns 80.
\<close>

theorem system_cpu_first_call_witness:
  "GetSystemCPU (Some (ft_low 20, ft_low 70, ft_low 30)) sys_prev0 =
     (Fin 80, \<lparr>prevIdle = ft_low 20, prevKernel = ft_low 70, prevUser = ft_low 30\<rparr>)"
proof -
  note first = system_cpu_first_call [where idle = "ft_low 20" and kern = "ft_low 70"
      and usr = "ft_low 30" and prev = sys_prev0]
  have "FileTimeToULL (ft_low 70) + FileTimeToULL (ft_low 30) \<noteq> 0" by simp
  with first obtain r where
    r: "GetSystemCPU (Some (ft_low 20, ft_low 70, ft_low 30)) sys_prev0 =
          (Fin r, \<lparr>prevIdle = ft_low 20, prevKernel = ft_low 70, prevUser = ft_low 30\<rparr>)"
    by blast
  have "fst (GetSystemCPU (Some (ft_low 20, ft_low 70, ft_low 30)) sys_prev0) = Fin 80"
    by (simp add: GetSystemCPU_Some Let_def sys_prev0_def round_nat_def round_div_def
        bit_length.simps)
  with r show ?thesis by simp
qed

text \<open>
  Claim C3 as stated fails: the first call with the sample (idle 20, kernel 70, user 30)
  returns the percentage 100 * (100 - 20) / 100 and not the value -1, the only value
  that the function returns without computing it from samples.
\<close>

theorem system_cpu_first_call_no_sentinel:
  "fst (GetSystemCPU (Some (ft_low 20, ft_low 70, ft_low 30)) sys_prev0) = Fin (100 * (100 - 20) / 100)
   \<and> fst (GetSystemCPU (Some (ft_low 20, ft_low 70, ft_low 30)) sys_prev0) \<noteq> Fin (- 1)"
  by (simp add: GetSystemCPU_Some Let_def sys_prev0_def round_nat_def round_div_def
      bit_length.simps)

subsection \<open>Per-process percentage\<close>

text \<open>
  Claim C1, as amended. Take a snapshot whose entries have distinct identifiers and an
  entry \<open>pe\<close> of it whose handle and whose process times were obtained; let \<open>c_now\<close> be
  its kernel plus user time and \<open>s_now\<close> the system's. The list that \<^verbatim>\<open>GetProcesses\<close>
  produces holds exactly one element with the identifier of \<open>pe\<close>, and its percentage is
  \<^item> the \<^verbatim>\<open>double\<close> result of 100 * ((c_now - c_prev) mod 2^64) / (s_now - s_prev) when
    the two maps hold \<open>c_prev\<close> and \<open>s_prev\<close> for the identifier, \<open>s_prev\<close> is not 0 and
    \<open>s_now > s_prev\<close>: a number that differs from this quotient by at most the quotient
    divided by \<open>2 ^ 50\<close>. The difference of the process times is taken in unsigned 64-bit
    arithmetic, and it is the plain difference \<open>c_now - c_prev\<close> when \<open>c_prev \<le> c_now\<close>;
  \<^item> 0 when the map of system times holds nothing for the identifier, or holds 0, or
    holds a value that is not below \<open>s_now\<close>.
  The witness below is the scenario of the claim: the baseline (1000, 5000) and the
  current values (1200, 5500) give exactly 40.
\<close>

theorem process_cpu_rate:
  assumes srt: "sort_contract srt"
    and snap: "toolhelp obs = Some pes"
    and dist: "distinct (map th32ProcessID pes)"
    and pe: "pe \<in> set pes"
    and q: "query pe = Handle pmc (Some (kern, usr))"
  shows "\<exists>p. filter (\<lambda>q. pid q = th32ProcessID pe) (fst (GetProcesses srt obs list byCpu g)) = [p] \<and>
     (let c_now = FileTimeToULL kern + FileTimeToULL usr;
          s_now = FileTimeToULL (sysKernel obs) + FileTimeToULL (sysUser obs);
          i = th32ProcessID pe
      in (\<forall>c_prev s_prev.
            lastProcTime g i = Some c_prev \<and> lastSysTime g i = Some s_prev \<and> 0 < s_prev \<and> s_prev < s_now \<longrightarrow>
              (\<exists>r. cpu p = Fin r \<and>
                 \<bar>r - 100 * real (unat (c_now - c_prev)) / (real (unat s_now) - real (unat s_prev))\<bar>
                   \<le> (100 * real (unat (c_now - c_prev)) / (real (unat s_now) - real (unat s_prev))) / 2 ^ 50 \<and>
                 (c_prev \<le> c_now \<longrightarrow>
                    \<bar>r - 100 * (real (unat c_now) - real (unat c_prev)) / (real (unat s_now) - real (unat s_prev))\<bar>
                      \<le> (100 * (real (unat c_now) - real (unat c_prev)) / (real (unat s_now) - real (unat s_prev)))
                           / 2 ^ 50)))
       \<and> (lastSysTime g i = None \<or> lastSysTime g i = Some 0 \<or>
            (\<exists>s_prev. lastSysTime g i = Some s_prev \<and> s_now \<le> s_prev) \<longrightarrow> cpu p = Fin 0))"
proof -
  let ?n = "FileTimeToULL (sysKernel obs) + FileTimeToULL (sysUser obs)"
  let ?c = "FileTimeToULL kern + FileTimeToULL usr"
  let ?i = "th32ProcessID pe"
  let ?p = "fst (process_one ?n pe g)"
  have one: "filter (\<lambda>q. pid q = ?i) (fst (GetProcesses srt obs list byCpu g)) = [?p]"
    by (rule GetProcesses_entry [OF srt snap dist pe])
  have rate: "\<exists>r. cpu ?p = Fin r \<and>
      \<bar>r - 100 * real (unat (?c - c_prev)) / (real (unat ?n) - real (unat s_prev))\<bar>
        \<le> (100 * real (unat (?c - c_prev)) / (real (unat ?n) - real (unat s_prev))) / 2 ^ 50 \<and>
      (c_prev \<le> ?c \<longrightarrow>
         \<bar>r - 100 * (real (unat ?c) - real (unat c_prev)) / (real (unat ?n) - real (unat s_prev))\<bar>
           \<le> (100 * (real (unat ?c) - real (unat c_prev)) / (real (unat ?n) - real (unat s_prev))) / 2 ^ 50)"
    if b: "lastProcTime g ?i = Some c_prev" "lastSysTime g ?i = Some s_prev" "0 < s_prev" "s_prev < ?n"
    for c_prev s_prev
  proof -
    let ?r = "round_div 53 (round_nat 53 (round_nat 53 (unat (?c - c_prev)) * 100))
                 (round_nat 53 (unat (?n - s_prev)))"
    have cpu: "cpu ?p = Fin ?r"
      using b by (simp add: process_one_cpu_times [OF q] map_index_def)
    have den: "real (unat (?n - s_prev)) = real (unat ?n) - real (unat s_prev)"
      using b(4) by (intro real_unat_diff) simp
    have "0 < unat (?n - s_prev)" using b(4) by (simp add: unat_gt_0)
    from double_rate_error [OF this, of "unat (?c - c_prev)"]
    have err: "\<bar>?r - 100 * real (unat (?c - c_prev)) / (real (unat ?n) - real (unat s_prev))\<bar>
        \<le> (100 * real (unat (?c - c_prev)) / (real (unat ?n) - real (unat s_prev))) / 2 ^ 50"
      by (simp only: den)
    have "\<bar>?r - 100 * (real (unat ?c) - real (unat c_prev)) / (real (unat ?n) - real (unat s_prev))\<bar>
        \<le> (100 * (real (unat ?c) - real (unat c_prev)) / (real (unat ?n) - real (unat s_prev))) / 2 ^ 50"
      if "c_prev \<le> ?c"
      using err by (simp only: real_unat_diff [OF that])
    with cpu err show ?thesis by blast
  qed
  have zero: "cpu ?p = Fin 0"
    if "lastSysTime g ?i = None \<or> lastSysTime g ?i = Some 0 \<or>
        (\<exists>s_prev. lastSysTime g ?i = Some s_prev \<and> ?n \<le> s_prev)"
    using that by (auto simp: process_one_cpu_times [OF q] map_index_def)
  from one rate zero show ?thesis
    unfolding Let_def by blast
qed

text \<open>The amended claim C1 at the scenario of the claim.\<close>

theorem process_cpu_rate_witness:
  "map cpu (filter (\<lambda>q. pid q = 7)
     (fst (GetProcesses insertion_sort (one_proc_obs 7 1200 5500) [] True (one_baseline 7 1000 5000))))
   = [Fin 40]"
proof -
  let ?pe = "\<lparr>th32ProcessID = 7, szExeFile = [], query = Handle (Some 0) (Some (ft_low 1200, ft_low 0))\<rparr>"
  have "toolhelp (one_proc_obs 7 1200 5500) = Some [?pe]"
    and "distinct (map th32ProcessID [?pe])"
    and "?pe \<in> set [?pe]"
    and "query ?pe = Handle (Some 0) (Some (ft_low 1200, ft_low 0))"
    by (simp_all add: one_proc_obs_def)
  from process_cpu_rate [OF insertion_sort_contract this,
      of "[]" True "one_baseline 7 1000 5000"]
  obtain p where
    p: "filter (\<lambda>q. pid q = 7)
         (fst (GetProcesses insertion_sort (one_proc_obs 7 1200 5500) [] True (one_baseline 7 1000 5000))) = [p]"
    by (auto simp: Let_def)
  have "map cpu (fst (GetProcesses insertion_sort (one_proc_obs 7 1200 5500) [] True
      (one_baseline 7 1000 5000))) = [Fin 40]"
    by (simp add: GetProcesses_def one_proc_obs_def one_baseline_def process_one_def map_index_def
        fp_eval)
  moreover have "map pid (fst (GetProcesses insertion_sort (one_proc_obs 7 1200 5500) [] True
      (one_baseline 7 1000 5000))) = [7]"
    by (simp add: GetProcesses_def one_proc_obs_def one_baseline_def process_one_def map_index_def
        fp_eval)
  ultimately show ?thesis
    by (cases "fst (GetProcesses insertion_sort (one_proc_obs 7 1200 5500) [] True
      (one_baseline 7 1000 5000))") auto
qed

text \<open>
  Claim C1 as stated fails in two ways. With the baseline (1200, 5000) and the current
  values (1000, 5500), as after the identifier was reused by a younger process, the
  percentage is not 100 * (1000 - 1200) / (5500 - 5000). With the baseline (10, 0), which
  exists and lies below the current system time 100, and the current process time 20, the
  percentage is 0 and not 100 * (20 - 10) / (100 - 0).
\<close>

theorem process_cpu_rate_counterexample:
  "map cpu (fst (GetProcesses insertion_sort (one_proc_obs 7 1000 5500) [] True (one_baseline 7 1200 5000)))
     \<noteq> [Fin (100 * (1000 - 1200) / (5500 - 5000))]
   \<and> map cpu (fst (GetProcesses insertion_sort (one_proc_obs 7 20 100) [] True (one_baseline 7 10 0)))
     = [Fin 0]
   \<and> map cpu (fst (GetProcesses insertion_sort (one_proc_obs 7 20 100) [] True (one_baseline 7 10 0)))
     \<noteq> [Fin (100 * (20 - 10) / (100 - 0))]"
  by (simp add: GetProcesses_def one_proc_obs_def one_baseline_def process_one_def map_index_def
      fp_eval)

subsection \<open>Zero denominators\<close>

text \<open>
  Claim C9. Neither rate computation ever divides by zero: the system-wide percentage and
  the percentage of a process are finite numbers on every input, never an infinity or a
  NaN. When the denominator, the elapsed kernel plus user time of the system, is zero,
  each of them is 0.
\<close>

theorem zero_denominator:
  "is_Fin (fst (GetSystemCPU smp prev))
   \<and> (FileTimeToULL kern + FileTimeToULL usr - (FileTimeToULL (prevKernel prev) + FileTimeToULL (prevUser prev)) = 0
        \<longrightarrow> fst (GetSystemCPU (Some (idle, kern, usr)) prev) = Fin 0)
   \<and> is_Fin (cpu (fst (process_one nowSys pe g)))
   \<and> (nowSys - map_index (lastSysTime g) (th32ProcessID pe) = 0
        \<longrightarrow> cpu (fst (process_one nowSys pe g)) = Fin 0)"
proof -
  have sys_fin: "is_Fin (fst (GetSystemCPU smp prev))"
  proof (cases smp)
    case None
    then show ?thesis by (simp add: GetSystemCPU_def)
  next
    case (Some t)
    obtain i k u where "t = (i, k, u)" by (cases t)
    with Some show ?thesis by (simp add: GetSystemCPU_Some Let_def)
  qed
  have sys_zero: "fst (GetSystemCPU (Some (idle, kern, usr)) prev) = Fin 0"
    if "FileTimeToULL kern + FileTimeToULL usr - (FileTimeToULL (prevKernel prev) + FileTimeToULL (prevUser prev)) = 0"
    using that by (simp add: GetSystemCPU_Some Let_def)
  have proc_zero: "cpu (fst (process_one nowSys pe g)) = Fin 0"
    if z: "nowSys - map_index (lastSysTime g) (th32ProcessID pe) = 0"
  proof -
    from z have eq: "map_index (lastSysTime g) (th32ProcessID pe) = nowSys" by simp
    show ?thesis
    proof (cases "query pe")
      case NoHandle
      then show ?thesis by (simp add: process_one_cpu_no_times)
    next
      case (Handle pmc tms)
      show ?thesis
      proof (cases tms)
        case None
        with Handle show ?thesis by (simp add: process_one_cpu_no_times)
      next
        case (Some ku)
        obtain k u where "ku = (k, u)" by (cases ku)
        with Handle Some eq show ?thesis by (simp add: process_one_cpu_times)
      qed
    qed
  qed
  from sys_fin sys_zero process_one_is_Fin proc_zero show ?thesis by blast
qed

text \<open>
  Claim C9 at concrete inputs: a system sample whose kernel and user times equal the
  previous ones, and a process whose baseline was taken at the current system time.
\<close>

theorem zero_denominator_witness:
  "fst (GetSystemCPU (Some (ft_low 120, ft_low 70, ft_low 60))
         \<lparr>prevIdle = ft_low 100, prevKernel = ft_low 70, prevUser = ft_low 60\<rparr>) = Fin 0
   \<and> cpu (fst (process_one 5000
        \<lparr>th32ProcessID = 7, szExeFile = [], query = Handle (Some 0) (Some (ft_low 1200, ft_low 0))\<rparr>
        (one_baseline 7 1000 5000))) = Fin 0"
  using zero_denominator [where kern = "ft_low 70" and usr = "ft_low 60" and idle = "ft_low 120"
      and prev = "\<lparr>prevIdle = ft_low 100, prevKernel = ft_low 70, prevUser = ft_low 60\<rparr>"
      and nowSys = 5000
      and pe = "\<lparr>th32ProcessID = 7, szExeFile = [], query = Handle (Some 0) (Some (ft_low 1200, ft_low 0))\<rparr>"
      and g = "one_baseline 7 1000 5000"]
  by (simp add: one_baseline_def map_index_def)

subsection \<open>Filtering\<close>

text \<open>
  Claim C7. For every list of processes and every filter text, the filter loop keeps
  exactly the processes whose name contains the filter text as a substring up to case, in
  their order and multiplicity; with the empty filter text it returns the list itself.
  After an iteration that does not show the help screen, the filtered list is the list
  of all processes filtered in this way by the current filter text.
\<close>

theorem filter_case_insensitive:
  "apply_filter lw flt ps = filter (\<lambda>p. contains_ci lw (name p) flt) ps
   \<and> apply_filter lw [] ps = ps
   \<and> (\<not> showHelp (cycle rt inp s) \<longrightarrow>
        filtered (cycle rt inp s) =
          filter (\<lambda>p. contains_ci (towlower rt) (name p) (searchFilter (cycle rt inp s)))
            (allProcesses (cycle rt inp s)))"
proof -
  have a: "apply_filter lw' flt' ps' = filter (\<lambda>p. contains_ci lw' (name p) flt') ps'" for lw' flt' ps'
    by (simp add: apply_filter_def MatchesFilter_contains_ci)
  have b: "apply_filter lw [] ps = ps"
    by (simp add: apply_filter_def MatchesFilter_def)
  from a b cycle_filtered show ?thesis by metis
qed

text \<open>
  Claim C7 at a concrete list: the filter text \<open>EXP\<close> keeps \<open>Explorer.exe\<close> and drops
  \<open>cmd.exe\<close>; the empty text keeps both.
\<close>

theorem filter_case_insensitive_witness:
  "filter (\<lambda>p. contains_ci ascii_lower (name p) (wstr ''EXP''))
      [named_info 1 ''Explorer.exe'', named_info 2 ''cmd.exe''] = [named_info 1 ''Explorer.exe'']
   \<and> apply_filter ascii_lower [] [named_info 1 ''Explorer.exe'', named_info 2 ''cmd.exe'']
       = [named_info 1 ''Explorer.exe'', named_info 2 ''cmd.exe'']"
proof -
  have "apply_filter ascii_lower (wstr ''EXP'') [named_info 1 ''Explorer.exe'', named_info 2 ''cmd.exe'']
        = [named_info 1 ''Explorer.exe'']"
    by (simp add: apply_filter_def MatchesFilter_def ascii_lower_def wstr_def named_info_def)
  with filter_case_insensitive [of ascii_lower "wstr ''EXP''"
      "[named_info 1 ''Explorer.exe'', named_info 2 ''cmd.exe'']"]
  show ?thesis by simp
qed

subsection \<open>Search mode\<close>

text \<open>
  Claim C8. Start in normal mode (neither search mode nor help), with \<^verbatim>\<open>iswprint\<close>
  accepting the letters a, b and c. After the keys \<open>/\<close>, \<open>a\<close>, \<open>b\<close>, \<open>c\<close>, one per
  iteration, the program is in search mode with the filter text \<open>abc\<close>. A following
  Escape ends in normal mode with the empty filter text. A following Enter instead ends in
  normal mode with the filter text \<open>abc\<close>, and the filtered list of that iteration is the
  process list filtered by \<open>abc\<close>.
\<close>

theorem search_escape_enter:
  assumes normal: "\<not> searchMode s" "\<not> showHelp s"
    and printable: "iswprint rt 97" "iswprint rt 98" "iswprint rt 99"
    and keys: "keyboard i1 = Key 47 k1" "keyboard i2 = Key 97 k2" "keyboard i3 = Key 98 k3"
      "keyboard i4 = Key 99 k4"
    and last: "keyboard esc = Key 27 k5" "keyboard enter = Key 13 k6"
  shows "(let t = run rt [i1, i2, i3, i4] s
          in searchMode t \<and> \<not> showHelp t \<and> searchFilter t = [97, 98, 99])
       \<and> (let t = run rt [i1, i2, i3, i4, esc] s
          in \<not> searchMode t \<and> \<not> showHelp t \<and> searchFilter t = [])
       \<and> (let t = run rt [i1, i2, i3, i4, enter] s
          in \<not> searchMode t \<and> \<not> showHelp t \<and> searchFilter t = [97, 98, 99] \<and>
             filtered t = apply_filter (towlower rt) [97, 98, 99] (allProcesses t))"
proof -
  let ?t = "run rt [i1, i2, i3, i4] s"
  have typed: "searchMode ?t \<and> \<not> showHelp ?t \<and> searchFilter ?t = [97, 98, 99]"
    using normal printable keys by (simp add: handle_key_def)
  have esc: "\<not> searchMode (cycle rt esc ?t) \<and> \<not> showHelp (cycle rt esc ?t) \<and>
      searchFilter (cycle rt esc ?t) = []"
    using typed last(1) by (simp add: handle_key_def)
  have enter: "\<not> searchMode (cycle rt enter ?t) \<and> \<not> showHelp (cycle rt enter ?t) \<and>
      searchFilter (cycle rt enter ?t) = [97, 98, 99]"
    using typed last(2) by (simp add: handle_key_def)
  then have "filtered (cycle rt enter ?t) =
      apply_filter (towlower rt) [97, 98, 99] (allProcesses (cycle rt enter ?t))"
    using cycle_filtered [of rt enter ?t] by simp
  with typed esc enter show ?thesis
    by (simp add: Let_def)
qed

text \<open>Claim C8 run from the initial state of the program, with the ASCII runtime.\<close>

theorem search_escape_enter_witness:
  "searchFilter (run sample_runtime
      [key_input 47 0 failed_obs, key_input 97 0 failed_obs, key_input 98 0 failed_obs,
       key_input 99 0 failed_obs, key_input 27 0 failed_obs] initial_state) = []
   \<and> searchFilter (run sample_runtime
      [key_input 47 0 failed_obs, key_input 97 0 failed_obs, key_input 98 0 failed_obs,
       key_input 99 0 failed_obs, key_input 13 0 failed_obs] initial_state) = wstr ''abc''"
  using search_escape_enter [of initial_state sample_runtime
      "key_input 47 0 failed_obs" 0 "key_input 97 0 failed_obs" 0 "key_input 98 0 failed_obs" 0
      "key_input 99 0 failed_obs" 0 "key_input 27 0 failed_obs" 0 "key_input 13 0 failed_obs" 0]
  by (simp add: initial_state_def sample_runtime_def ascii_print_def key_input_def Let_def wstr_def)

subsection \<open>The help screen\<close>

text \<open>
  Claim C10. Start in normal mode and press \<open>h\<close> or \<open>H\<close>. Through that iteration and
  any number of following iterations that bring no key or an extended key (a prefix 0 or
  224 followed by a code, for instance 72 for Up and 80 for Down), the whole state stays
  as it was, but for the help flag: no snapshot is taken, so the sort key, the filter
  text, the scroll offset, both maps and the statics are unchanged. The keyboard block of
  the iteration that brings the next \<open>h\<close> or \<open>H\<close> yields exactly the state before help, and
  that iteration as a whole equals an iteration without a key from the state before help.
  In any state that shows help, an extended key leaves the scroll offset unchanged.
\<close>

theorem help_toggle:
  assumes normal: "\<not> searchMode s" "\<not> showHelp s"
    and enter_help: "keyboard i_on = Key h1 k1" "h1 = 104 \<or> h1 = 72"
    and arrows: "\<forall>i\<in>set arrows. keyboard i = NoKey \<or> (\<exists>p c. keyboard i = Key p c \<and> (p = 0 \<or> p = 224))"
    and leave_help: "keyboard i_off = Key h2 k2" "h2 = 104 \<or> h2 = 72"
  shows "run rt (i_on # arrows) s = s\<lparr>showHelp := True\<rparr>
       \<and> handle_key (iswprint rt) (keyboard i_off) (run rt (i_on # arrows) s) = s
       \<and> run rt (i_on # arrows @ [i_off]) s = cycle rt (i_off\<lparr>keyboard := NoKey\<rparr>) s
       \<and> (\<forall>t p c. showHelp t \<and> (p = 0 \<or> p = 224) \<longrightarrow> scroll (handle_key (iswprint rt) (Key p c) t) = scroll t)"
proof -
  have hk: "handle_key (iswprint rt) (keyboard i_on) s = s\<lparr>showHelp := True\<rparr>"
    using normal enter_help by (auto simp: handle_key_def)
  then have "cycle rt i_on s = s\<lparr>showHelp := True\<rparr>"
    by (simp add: cycle_help)
  moreover have "run rt arrows (s\<lparr>showHelp := True\<rparr>) = s\<lparr>showHelp := True\<rparr>"
    using help_cycles [OF _ _ arrows, of "s\<lparr>showHelp := True\<rparr>" rt] normal by simp
  ultimately have shown: "run rt (i_on # arrows) s = s\<lparr>showHelp := True\<rparr>"
    by simp
  have restored: "handle_key (iswprint rt) (keyboard i_off) (s\<lparr>showHelp := True\<rparr>) = s"
    using normal leave_help by (auto simp: handle_key_def)
  have run_app: "run rt (xs @ ys) u = run rt ys (run rt xs u)" for xs ys u
    by (induction xs arbitrary: u) simp_all
  have "run rt (i_on # arrows @ [i_off]) s = cycle rt i_off (s\<lparr>showHelp := True\<rparr>)"
    using run_app [of "i_on # arrows" "[i_off]" s] shown by simp
  also have "\<dots> = cycle rt (i_off\<lparr>keyboard := NoKey\<rparr>) s"
    using restored by (simp add: cycle_def handle_key_def)
  finally have resumed: "run rt (i_on # arrows @ [i_off]) s = cycle rt (i_off\<lparr>keyboard := NoKey\<rparr>) s" .
  have fixed: "scroll (handle_key (iswprint rt) (Key p c) t) = scroll t"
    if "showHelp t" "p = 0 \<or> p = 224" for t p c
    using that by (auto simp: handle_key_def)
  from shown restored resumed fixed show ?thesis by simp
qed

text \<open>Claim C10 from the initial state: \<open>h\<close>, Up, Down, \<open>H\<close>.\<close>

theorem help_toggle_witness:
  "run sample_runtime
     [key_input 104 0 failed_obs, key_input 224 72 failed_obs, key_input 224 80 failed_obs,
      key_input 72 0 failed_obs] initial_state
   = cycle sample_runtime (idle_input failed_obs) initial_state
   \<and> run sample_runtime
     [key_input 104 0 failed_obs, key_input 224 72 failed_obs, key_input 224 80 failed_obs] initial_state
   = initial_state\<lparr>showHelp := True\<rparr>"
proof -
  have normal: "\<not> searchMode initial_state" "\<not> showHelp initial_state"
    by (simp_all add: initial_state_def)
  have enter_help: "keyboard (key_input 104 0 failed_obs) = Key 104 0" "(104::int) = 104 \<or> (104::int) = 72"
    by (simp_all add: key_input_def)
  have arrows: "\<forall>i\<in>set [key_input 224 72 failed_obs, key_input 224 80 failed_obs].
      keyboard i = NoKey \<or> (\<exists>p c. keyboard i = Key p c \<and> (p = 0 \<or> p = 224))"
    by (simp add: key_input_def)
  have leave_help: "keyboard (key_input 72 0 failed_obs) = Key 72 0" "(72::int) = 104 \<or> (72::int) = 72"
    by (simp_all add: key_input_def)
  have idle: "(key_input 72 0 failed_obs)\<lparr>keyboard := NoKey\<rparr> = idle_input failed_obs"
    by (simp add: key_input_def idle_input_def)
  note toggled = help_toggle [OF normal enter_help arrows leave_help, of sample_runtime]
  have shown: "run sample_runtime
      (key_input 104 0 failed_obs # [key_input 224 72 failed_obs, key_input 224 80 failed_obs])
      initial_state = initial_state\<lparr>showHelp := True\<rparr>"
    using toggled by blast
  have resumed: "run sample_runtime
      (key_input 104 0 failed_obs # [key_input 224 72 failed_obs, key_input 224 80 failed_obs]
        @ [key_input 72 0 failed_obs])
      initial_state = cycle sample_runtime ((key_input 72 0 failed_obs)\<lparr>keyboard := NoKey\<rparr>) initial_state"
    using toggled by blast
  from shown resumed show ?thesis
    by (simp only: idle append_Cons append_Nil simp_thms)
qed

subsection \<open>A snapshot that cannot be started\<close>

text \<open>
  Claim C5, as amended. When \<^verbatim>\<open>CreateToolhelp32Snapshot\<close> fails, \<^verbatim>\<open>GetProcesses\<close>
  returns normally with an empty list and leaves both maps unchanged, whatever list it was
  given. An iteration that meets the failure without showing help therefore ends with an
  empty process list, an empty filtered list and no rows to print; the maps are those
  from before the iteration.
\<close>

theorem enumeration_failure:
  assumes "toolhelp obs = None"
  shows "GetProcesses srt obs list byCpu g = ([], g)
       \<and> (snapshot inp = obs \<and> \<not> showHelp (cycle rt inp s) \<longrightarrow>
            allProcesses (cycle rt inp s) = [] \<and> filtered (cycle rt inp s) = [] \<and>
            shown_rows (cycle rt inp s) = [] \<and> glob (cycle rt inp s) = glob s)"
proof -
  have gp: "GetProcesses srt' obs list' byCpu' g' = ([], g')" for srt' list' byCpu' g'
    using assms by (rule GetProcesses_None)
  have "allProcesses (cycle rt inp s) = [] \<and> filtered (cycle rt inp s) = [] \<and>
        shown_rows (cycle rt inp s) = [] \<and> glob (cycle rt inp s) = glob s"
    if "snapshot inp = obs" "\<not> showHelp (cycle rt inp s)"
    using that by (simp add: cycle_snapshot gp apply_filter_def shown_rows_def)
  with gp show ?thesis by blast
qed

text \<open>
  The amended claim C5 from the initial state: an iteration that sees one process, then an
  iteration whose snapshot cannot be started.
\<close>

theorem enumeration_failure_witness:
  "shown_rows (run sample_runtime [ok_input, idle_input failed_obs] initial_state) = []
   \<and> allProcesses (run sample_runtime [ok_input, idle_input failed_obs] initial_state) = []
   \<and> glob (run sample_runtime [ok_input, idle_input failed_obs] initial_state)
     = glob (run sample_runtime [ok_input] initial_state)"
proof -
  have "toolhelp failed_obs = None"
    by (simp add: failed_obs_def)
  from enumeration_failure [OF this, where inp = "idle_input failed_obs" and rt = sample_runtime
      and s = "run sample_runtime [ok_input] initial_state"]
  show ?thesis
    by (simp add: idle_input_def ok_input_def initial_state_def handle_key_def)
qed

text \<open>
  Claim C5 as stated fails: after an iteration that saw one process, an iteration whose
  snapshot cannot be started leaves neither the process list nor the printed rows as
  they were.
\<close>

theorem enumeration_failure_counterexample:
  "allProcesses (run sample_runtime [ok_input, idle_input failed_obs] initial_state)
     \<noteq> allProcesses (run sample_runtime [ok_input] initial_state)
   \<and> shown_rows (run sample_runtime [ok_input, idle_input failed_obs] initial_state)
     \<noteq> shown_rows (run sample_runtime [ok_input] initial_state)"
  by (simp add: ok_input_def idle_input_def failed_obs_def one_proc_obs_def initial_state_def
      sample_runtime_def cycle_def handle_key_def GetProcesses_def GetSystemCPU_def process_one_def
      globals0_def map_index_def apply_filter_def MatchesFilter_def shown_rows_def Let_def)

subsection \<open>Sorting\<close>





subsection \<open>The scroll offset\<close>

lemma table_list:
  "fst (GetProcesses insertion_sort table_obs l b g) =
     map (\<lambda>i. named_info i ''a.exe'') [1, 2, 3, 4, 5, 6, 7, 8, 9, 10, 11, 12, 13, 14, 15]
       @ [named_info 16 ''z.exe'']"
  by (simp add: GetProcesses_def table_obs_def table_entry_def process_one_def named_info_def
      sort_cmp_def)

lemma table_unfiltered:
  "length (apply_filter ascii_lower [] (fst (GetProcesses insertion_sort table_obs l b g))) = 16"
  by (simp add: table_list apply_filter_def MatchesFilter_def)

lemma table_filtered_z:
  "apply_filter ascii_lower [122] (fst (GetProcesses insertion_sort table_obs l b g)) =
     [named_info 16 ''z.exe'']"
  by (simp add: table_list apply_filter_def MatchesFilter_def named_info_def wstr_def ascii_lower_def)

text \<open>
  Claim C4 fails on the program. From the initial state, with sixteen processes in the
  table, one Down press moves the scroll offset to 1, which is in range. Entering the
  filter text \<open>z\<close> leaves one process in the filtered list, and nothing adjusts the
  offset: it is still 1, above the bound max(0, 1 - 15) = 0, and the rendering loop prints
  no row although one process matches.
\<close>

theorem scroll_out_of_range:
  "scroll (run sample_runtime scroll_then_filter initial_state) = 1
   \<and> map pid (filtered (run sample_runtime scroll_then_filter initial_state)) = [16]
   \<and> shown_rows (run sample_runtime scroll_then_filter initial_state) = []
   \<and> \<not> scroll_in_range (run sample_runtime scroll_then_filter initial_state)
   \<and> scroll_in_range (run sample_runtime [idle_input table_obs, key_input 224 80 table_obs] initial_state)"
proof -
  let ?rt = sample_runtime
  define s1 where "s1 = cycle ?rt (idle_input table_obs) initial_state"
  define s2 where "s2 = cycle ?rt (key_input 224 80 table_obs) s1"
  define s3 where "s3 = cycle ?rt (key_input 47 0 table_obs) s2"
  define s4 where "s4 = cycle ?rt (key_input 122 0 table_obs) s3"
  define s5 where "s5 = cycle ?rt (key_input 13 0 table_obs) s4"
  have rt: "std_sort ?rt = insertion_sort" "towlower ?rt = ascii_lower" "iswprint ?rt = ascii_print"
    by (simp_all add: sample_runtime_def)
  have in1: "keyboard (idle_input table_obs) = NoKey" "snapshot (idle_input table_obs) = table_obs"
    by (simp_all add: idle_input_def)
  have ink: "keyboard (key_input a b table_obs) = Key a b" "snapshot (key_input a b table_obs) = table_obs"
    for a b by (simp_all add: key_input_def)
  have f1: "scroll s1 = 0" "\<not> showHelp s1" "\<not> searchMode s1" "searchFilter s1 = []" "length (filtered s1) = 16"
    unfolding s1_def
    by (simp_all add: cycle_lists rt in1 handle_key_def initial_state_def table_unfiltered)
  have f2: "scroll s2 = 1" "\<not> showHelp s2" "\<not> searchMode s2" "searchFilter s2 = []" "length (filtered s2) = 16"
    unfolding s2_def using f1
    by (simp_all add: cycle_lists rt ink handle_key_def table_unfiltered)
  have f3: "scroll s3 = 1" "\<not> showHelp s3" "searchMode s3" "searchFilter s3 = []"
    unfolding s3_def using f2
    by (simp_all add: rt ink handle_key_def)
  have f4: "scroll s4 = 1" "\<not> showHelp s4" "searchMode s4" "searchFilter s4 = [122]"
    unfolding s4_def using f3
    by (simp_all add: rt ink handle_key_def ascii_print_def)
  have f5: "scroll s5 = 1" "\<not> showHelp s5" "\<not> searchMode s5" "searchFilter s5 = [122]"
      "filtered s5 = [named_info 16 ''z.exe'']"
    unfolding s5_def using f4
    by (simp_all add: cycle_lists rt ink handle_key_def table_filtered_z)
  have r5: "run ?rt scroll_then_filter initial_state = s5"
    by (simp add: scroll_then_filter_def s1_def s2_def s3_def s4_def s5_def)
  have r2: "run ?rt [idle_input table_obs, key_input 224 80 table_obs] initial_state = s2"
    by (simp add: s1_def s2_def)
  from f5 have "scroll s5 = 1" and "map pid (filtered s5) = [16]" and "shown_rows s5 = []"
    and "\<not> scroll_in_range s5"
    by (simp_all add: named_info_def shown_rows_def scroll_in_range_def)
  moreover from f2 have "scroll_in_range s2"
    by (simp add: scroll_in_range_def)
  ultimately show ?thesis
    unfolding r5 r2 by simp
qed

end
